theory Spec2Isabelle
  imports Complex_Main
begin

section \<open>Conventions\<close>

text \<open>
  The dubbing pipeline of VideoLingo computes with Python floats. The model computes with
  the reals: every comparison and every sum below is the exact one, and the rounding of
  IEEE arithmetic is not modelled. Configuration values read with \<open>load_key\<close>
  (\<open>tolerance\<close>, \<open>speed_factor.accept\<close>, \<open>speed_factor.min\<close>) are parameters
  of the functions that read them. Measurements of audio files (\<open>get_audio_duration\<close>,
  \<open>len(audio)\<close>) and the outcome of the \<open>ffmpeg\<close> and TTS calls are inputs as well.
  Division by zero is not a value of the model: where a divisor can be zero the theorems
  exclude it by a hypothesis.
\<close>

datatype py_error =
    IndexError
  | ValueError
  | FileNotFoundError
  | RuntimeError
  | CalledProcessError
  | SynthesisError
  | TypeError
  | KeyError
  | SetWithEnlargement

text \<open>Python's \<open>int(x)\<close> on a float truncates towards zero.\<close>

definition py_int :: "real \<Rightarrow> int" where
  "py_int x = (if 0 \<le> x then \<lfloor>x\<rfloor> else \<lceil>x\<rceil>)"

section \<open>TimingAnalyzer: speed classification (\<open>core/_8_2_dub_chunks.py\<close>)\<close>

text \<open>
  \<open>calc_if_too_fast(est_dur, tol_dur, duration, tolerance)\<close>; the first argument of the
  model is \<open>load_key("speed_factor.accept")\<close>.
\<close>

definition calc_if_too_fast :: "real \<Rightarrow> real \<Rightarrow> real \<Rightarrow> real \<Rightarrow> real \<Rightarrow> int" where
  "calc_if_too_fast accept_speed est_dur tol_dur duration tolerance =
     (if est_dur / accept_speed > tol_dur then 2
      else if est_dur > tol_dur then 1
      else if est_dur < duration - tolerance then -1
      else 0)"

section \<open>Speed-change corrector (\<open>adjust_audio_speed\<close>, \<open>core/_10_gen_audio.py\<close>)\<close>

text \<open>
  What \<open>adjust_audio_speed\<close> leaves in the output file: a copy of the input, the file
  \<open>ffmpeg\<close> wrote, or that file cut by pydub to \<open>audio[:ms]\<close>.
\<close>

datatype adjusted = Copied | Unmodified | Trimmed int

definition max_retries :: nat where
  "max_retries = 2"

text \<open>
  The body of the \<open>try\<close> once \<open>subprocess.run\<close> has succeeded and the output file has
  been measured.
\<close>

definition check_output :: "real \<Rightarrow> real \<Rightarrow> real \<Rightarrow> py_error + adjusted" where
  "check_output input_duration speed_factor output_duration =
     (let expected_duration = input_duration / speed_factor;
          diff = output_duration - expected_duration
      in if output_duration \<ge> expected_duration * 1.02 \<and> input_duration < 3 \<and> diff \<le> 0.1
           then Inr (Trimmed (py_int (expected_duration * 1000)))
         else if output_duration \<ge> expected_duration * 1.02
           then Inl RuntimeError
         else Inr Unmodified)"

text \<open>
  The \<open>for attempt in range(max_retries)\<close> loop. \<open>ffmpeg attempt\<close> is \<open>None\<close> when
  \<open>subprocess.run\<close> raises \<open>CalledProcessError\<close> at that attempt and \<open>Some d\<close> when it
  succeeds and the output file then measures \<open>d\<close> seconds. A \<open>RuntimeError\<close> raised by the
  check is not caught by the \<open>except\<close> clause and leaves the loop.
\<close>

fun attempts :: "real \<Rightarrow> real \<Rightarrow> (nat \<Rightarrow> real option) \<Rightarrow> nat list \<Rightarrow> py_error + adjusted" where
  "attempts input_duration speed_factor ffmpeg [] = Inr Unmodified"
| "attempts input_duration speed_factor ffmpeg (attempt # rest) =
     (case ffmpeg attempt of
        Some output_duration \<Rightarrow> check_output input_duration speed_factor output_duration
      | None \<Rightarrow>
          if attempt < max_retries - 1
          then attempts input_duration speed_factor ffmpeg rest
          else Inl CalledProcessError)"

definition adjust_audio_speed :: "real \<Rightarrow> (nat \<Rightarrow> real option) \<Rightarrow> real \<Rightarrow> py_error + adjusted" where
  "adjust_audio_speed input_duration ffmpeg speed_factor =
     (if \<bar>speed_factor - 1.0\<bar> < 0.001 then Inr Copied
      else attempts input_duration speed_factor ffmpeg [0..<max_retries])"

text \<open>The length in seconds of the output file, given the length of what it was made from.\<close>

fun adjusted_duration :: "real \<Rightarrow> real \<Rightarrow> adjusted \<Rightarrow> real" where
  "adjusted_duration input_duration output_duration Copied = input_duration"
| "adjusted_duration input_duration output_duration Unmodified = output_duration"
| "adjusted_duration input_duration output_duration (Trimmed ms) = real_of_int ms / 1000"

section \<open>The line table\<close>

text \<open>
  The pandas frame the stages share, one record per row. \<open>_8_2_dub_chunks.py\<close> works on
  the columns of \<open>sub_row\<close> (the column \<open>text\<close> is the field \<open>sub_text\<close>);
  \<open>_10_gen_audio.py\<close> reads the same table with the columns \<open>lines\<close>, \<open>real_dur\<close>
  and \<open>new_sub_times\<close> added. Rows are addressed by position: the frame has the default
  index \<open>0 .. len(df) - 1\<close>, so that \<open>df.loc[i]\<close>, \<open>df.at[i]\<close> and \<open>df.iloc[i]\<close>
  name the same row.

  A \<open>clip\<close> is one entry of \<open>lines\<close> together with what the outside world answers for
  its two files \<open>{number}_{line_index}\<close>: whether \<open>tts_main\<close> succeeds and how long the
  temporary file then measures (\<open>clip_tts\<close>), the length \<open>adjust_audio_speed\<close> measures
  for the temporary file (\<open>clip_input_duration\<close>), the outcome of each \<open>ffmpeg\<close> run
  (\<open>clip_ffmpeg\<close>), the length \<open>merge_chunks\<close> measures for the output file after the
  speed change (\<open>clip_ad_dur\<close>) and the length in milliseconds pydub reports for the
  output file (\<open>clip_len_ms\<close>).
\<close>

record py_time =
  hour :: nat
  minute :: nat
  second :: nat
  microsecond :: nat

record clip =
  clip_tts :: "real option"
  clip_input_duration :: real
  clip_ffmpeg :: "nat \<Rightarrow> real option"
  clip_ad_dur :: real
  clip_len_ms :: int

record sub_row =
  number :: int
  start_time_str :: string
  end_time_str :: string
  duration :: real
  sub_text :: string
  gap :: real
  tolerance :: real
  tol_dur :: real
  est_dur :: real
  if_too_fast :: int
  cut_off :: int

record task_row = sub_row +
  lines :: "clip list"
  real_dur :: real
  new_sub_times :: "(real \<times> real) list option"

section \<open>TimingAnalyzer (\<open>analyze_subtitle_timing_and_speed\<close>)\<close>

text \<open>
  The seconds since midnight of a \<open>datetime.time\<close>, as the source computes
  \<open>last_end_seconds\<close>.
\<close>

definition time_seconds :: "py_time \<Rightarrow> real" where
  "time_seconds t =
     real (hour t) * 3600 + real (minute t) * 60 + real (second t) + real (microsecond t) / 1000000"

text \<open>
  Modelled from the spec: \<open>time_diff_seconds\<close> is imported from
  \<open>core._8_1_audio_task\<close>, which does not define it. The spec gives
  \<open>gap[i] = start[i+1] - end[i]\<close>: the seconds from the first time to the second, both on
  the same day.
\<close>

definition time_diff_seconds :: "py_time \<Rightarrow> py_time \<Rightarrow> real" where
  "time_diff_seconds t1 t2 = time_seconds t2 - time_seconds t1"

text \<open>
  \<open>to_time\<close> is \<open>pd.to_datetime(s, format='%H:%M:%S,%f').dt.time\<close> on one cell
  (\<open>None\<close> when pandas raises), \<open>estimate\<close> is \<open>estimate_duration(text, ESTIMATOR)\<close>,
  \<open>TOLERANCE\<close> and \<open>accept\<close> are the configuration keys \<open>tolerance\<close> and
  \<open>speed_factor.accept\<close>, and \<open>whole_dur\<close> is the measured length of the raw audio.
  The columns \<open>end_time_dt\<close> and \<open>start_time_dt\<close> are dropped at the end and are lists
  of their own here.
\<close>

definition analyze_subtitle_timing_and_speed ::
  "(string \<Rightarrow> py_time option) \<Rightarrow> (string \<Rightarrow> real) \<Rightarrow> real \<Rightarrow> real \<Rightarrow> real
     \<Rightarrow> sub_row list \<Rightarrow> py_error + sub_row list" where
  "analyze_subtitle_timing_and_speed to_time estimate TOLERANCE accept whole_dur df =
     (let df1 = map (\<lambda>r. r\<lparr>gap := 0\<rparr>) df in
      case those (map (\<lambda>r. to_time (end_time_str r)) df1) of
        None \<Rightarrow> Inl ValueError
      | Some end_time_dt \<Rightarrow>
      (case those (map (\<lambda>r. to_time (start_time_str r)) df1) of
        None \<Rightarrow> Inl ValueError
      | Some start_time_dt \<Rightarrow>
        (let df2 = fold (\<lambda>i d. d[i := (d ! i)\<lparr>gap :=
                           time_diff_seconds (end_time_dt ! i) (start_time_dt ! (i + 1))\<rparr>])
                     [0..<length df1 - 1] df1
         in case df2 of
              [] \<Rightarrow> Inl IndexError
            | _ # _ \<Rightarrow>
              (let last_end_seconds = time_seconds (last end_time_dt);
                   df3 = df2[length df2 - 1 := (last df2)\<lparr>gap := whole_dur - last_end_seconds\<rparr>];
                   df4 = map (\<lambda>r. r\<lparr>tolerance := min (gap r) TOLERANCE\<rparr>) df3;
                   df5 = map (\<lambda>r. r\<lparr>tol_dur := duration r + tolerance r\<rparr>) df4;
                   df6 = map (\<lambda>r. r\<lparr>est_dur := estimate (sub_text r)\<rparr>) df5;
                   df7 = map (\<lambda>r. r\<lparr>if_too_fast :=
                           calc_if_too_fast accept (est_dur r) (tol_dur r) (duration r) (tolerance r)\<rparr>) df6
               in Inr df7))))"

section \<open>ChunkPlanner (\<open>merge_rows\<close>, \<open>process_cutoffs\<close>)\<close>

definition MAX_MERGE_COUNT :: nat where
  "MAX_MERGE_COUNT = 5"

text \<open>
  The \<open>while\<close> loop of \<open>merge_rows\<close> and the forced cut after it. The triple is the
  dictionary \<open>merged\<close> (\<open>est_dur\<close>, \<open>tol_dur\<close>, \<open>duration\<close>). The result is the value
  returned and the frame with the new mark. The write after the loop goes to the label
  \<open>start_idx + merge_count - 1\<close>; for a label outside the frame pandas would add a row,
  which the model reports as \<open>SetWithEnlargement\<close> (no caller gets there:
  \<open>process_cutoffs\<close> passes \<open>merge_count = 1\<close> and a row inside the frame).
\<close>

function merge_rows_loop ::
  "real \<Rightarrow> nat \<Rightarrow> sub_row list \<Rightarrow> real \<times> real \<times> real \<Rightarrow> nat \<Rightarrow> py_error + nat \<times> sub_row list" where
  "merge_rows_loop accept start_idx df merged merge_count =
     (if merge_count < MAX_MERGE_COUNT \<and> start_idx + merge_count < length df then
        (let next_row = df ! (start_idx + merge_count);
             merged' = (fst merged + est_dur next_row,
                        fst (snd merged) + tol_dur next_row,
                        snd (snd merged) + duration next_row);
             speed_flag = calc_if_too_fast accept (fst merged') (fst (snd merged')) (snd (snd merged'))
                            (tolerance (df ! (start_idx + merge_count)))
         in if speed_flag \<le> 0 \<or> merge_count = 2
            then Inr (merge_count + 1,
                      df[start_idx + merge_count := (df ! (start_idx + merge_count))\<lparr>cut_off := 1\<rparr>])
            else merge_rows_loop accept start_idx df merged' (merge_count + 1))
      else if merge_count \<ge> MAX_MERGE_COUNT \<or> start_idx + merge_count \<ge> length df then
        (if 1 \<le> start_idx + merge_count \<and> start_idx + merge_count - 1 < length df
         then Inr (merge_count,
                   df[start_idx + merge_count - 1 := (df ! (start_idx + merge_count - 1))\<lparr>cut_off := 1\<rparr>])
         else Inl SetWithEnlargement)
      else Inr (merge_count, df))"
  by pat_completeness auto
termination
  by (relation "measure (\<lambda>(accept, start_idx, df, merged, merge_count). MAX_MERGE_COUNT - merge_count)")
     auto

definition merge_rows :: "real \<Rightarrow> sub_row list \<Rightarrow> nat \<Rightarrow> nat \<Rightarrow> py_error + nat \<times> sub_row list" where
  "merge_rows accept df start_idx merge_count =
     (if start_idx < length df
      then merge_rows_loop accept start_idx df
             (est_dur (df ! start_idx), tol_dur (df ! start_idx), duration (df ! start_idx))
             merge_count
      else Inl IndexError)"

text \<open>
  The \<open>while idx < len(df)\<close> loop of \<open>process_cutoffs\<close>. The warning printed for a
  marked line of flag 2 changes nothing and is left out.
\<close>

function cutoff_loop :: "real \<Rightarrow> sub_row list \<Rightarrow> nat \<Rightarrow> py_error + sub_row list" where
  "cutoff_loop accept df idx =
     (if idx < length df then
        (if cut_off (df ! idx) = 1 then cutoff_loop accept df (idx + 1)
         else if idx + 1 \<ge> length df then Inr (df[idx := (df ! idx)\<lparr>cut_off := 1\<rparr>])
         else if if_too_fast (df ! idx) \<le> 0 then
           (if if_too_fast (df ! (idx + 1)) \<le> 0
            then cutoff_loop accept (df[idx := (df ! idx)\<lparr>cut_off := 1\<rparr>]) (idx + 1)
            else (case merge_rows accept df idx 1 of
                    Inl e \<Rightarrow> Inl e
                  | Inr (n, df') \<Rightarrow> cutoff_loop accept df' (idx + n)))
         else (case merge_rows accept df idx 1 of
                 Inl e \<Rightarrow> Inl e
               | Inr (n, df') \<Rightarrow> cutoff_loop accept df' (idx + n)))
      else Inr df)"
  by pat_completeness auto
termination
proof -
  have loop: "merge_rows_loop accept start_idx df merged merge_count = Inr (n, df')
              \<Longrightarrow> length df' = length df \<and> merge_count \<le> n"
    for accept start_idx df merged merge_count n df'
  proof (induction accept start_idx df merged merge_count rule: merge_rows_loop.induct)
    case (1 accept start_idx df merged merge_count)
    show ?case
    proof (cases "merge_count < MAX_MERGE_COUNT \<and> start_idx + merge_count < length df")
      case True
      let ?m = "(fst merged + est_dur (df ! (start_idx + merge_count)),
                 fst (snd merged) + tol_dur (df ! (start_idx + merge_count)),
                 snd (snd merged) + duration (df ! (start_idx + merge_count)))"
      let ?flag = "calc_if_too_fast accept (fst ?m) (fst (snd ?m)) (snd (snd ?m))
                     (tolerance (df ! (start_idx + merge_count)))"
      show ?thesis
      proof (cases "?flag \<le> 0 \<or> merge_count = 2")
        case stop: True
        with True "1.prems" show ?thesis
          by (subst (asm) merge_rows_loop.simps) (auto simp: Let_def)
      next
        case go: False
        from True go "1.prems"
        have "merge_rows_loop accept start_idx df ?m (merge_count + 1) = Inr (n, df')"
          by (subst (asm) merge_rows_loop.simps) (simp add: Let_def)
        from "1.IH" [OF True refl refl refl go this] show ?thesis by simp
      qed
    next
      case False
      with "1.prems" show ?thesis
        by (subst (asm) merge_rows_loop.simps) (auto split: if_splits)
    qed
  qed
  have mr: "merge_rows accept df idx (Suc 0) = Inr (n, df') \<Longrightarrow> length df' = length df \<and> 1 \<le> n"
    for accept df idx n df'
    using loop [of accept idx df _ "Suc 0" n df'] by (auto simp: merge_rows_def split: if_splits)
  show ?thesis
    by (relation "measure (\<lambda>(accept, df, idx). length df - idx)")
       (auto dest!: mr)
qed

text \<open>
  \<open>process_cutoffs\<close>: every mark is cleared, the lines whose gap reaches the
  configured \<open>tolerance\<close> are marked, and the loop runs from the first line.
\<close>

definition process_cutoffs :: "real \<Rightarrow> real \<Rightarrow> sub_row list \<Rightarrow> py_error + sub_row list" where
  "process_cutoffs TOLERANCE accept df =
     (let df1 = map (\<lambda>r. r\<lparr>cut_off := 0\<rparr>) df;
          df2 = map (\<lambda>r. if gap r \<ge> TOLERANCE then r\<lparr>cut_off := 1\<rparr> else r) df1
      in cutoff_loop accept df2 0)"

section \<open>Python helpers of the renderer\<close>

text \<open>
  \<open>round(x, 3)\<close>: the nearest multiple of 0.001, a tie going to the even one.
\<close>

definition round_half_even :: "real \<Rightarrow> int" where
  "round_half_even x =
     (let f = \<lfloor>x\<rfloor>; r = x - real_of_int f
      in if r < 1 / 2 then f
         else if r > 1 / 2 then f + 1
         else if even f then f else f + 1)"

definition py_round3 :: "real \<Rightarrow> real" where
  "py_round3 x = real_of_int (round_half_even (x * 1000)) / 1000"

text \<open>
  Strings are byte strings here. \<open>str.strip()\<close> removes white space at both ends,
  \<open>str.split(sep)\<close> cuts at every separator and always returns at least one part, and
  \<open>int(s)\<close> reads an optional sign and decimal digits, single underscores between the
  digits allowed, white space around them ignored; it raises \<open>ValueError\<close> on anything
  else (\<open>None\<close>). White space and digits beyond ASCII are not modelled.
\<close>

definition py_isspace :: "char \<Rightarrow> bool" where
  "py_isspace c = (c \<in> set [CHR '' '', CHR 0x09, CHR 0x0A, CHR 0x0B, CHR 0x0C, CHR 0x0D,
                                CHR 0x1C, CHR 0x1D, CHR 0x1E, CHR 0x1F])"

definition py_strip :: "string \<Rightarrow> string" where
  "py_strip s = rev (dropWhile py_isspace (rev (dropWhile py_isspace s)))"

fun py_split :: "char \<Rightarrow> string \<Rightarrow> string list" where
  "py_split sep [] = [[]]"
| "py_split sep (c # cs) =
     (if c = sep then [] # py_split sep cs
      else (case py_split sep cs of
              [] \<Rightarrow> [[c]]
            | p # ps \<Rightarrow> (c # p) # ps))"

definition py_isdigit :: "char \<Rightarrow> bool" where
  "py_isdigit c = (48 \<le> (of_char c :: nat) \<and> (of_char c :: nat) \<le> 57)"

fun digits_ok :: "string \<Rightarrow> bool" where
  "digits_ok [] = False"
| "digits_ok [c] = py_isdigit c"
| "digits_ok (c # d # cs) =
     (if c = CHR ''_'' then False
      else if d = CHR ''_'' then py_isdigit c \<and> digits_ok cs
      else py_isdigit c \<and> digits_ok (d # cs))"

definition digits_value :: "string \<Rightarrow> int" where
  "digits_value s = foldl (\<lambda>v c. 10 * v + (int (of_char c) - 48)) 0 (filter (\<lambda>c. c \<noteq> CHR ''_'') s)"

definition py_int_str :: "string \<Rightarrow> int option" where
  "py_int_str s =
     (let t = py_strip s;
          neg = (case t of [] \<Rightarrow> False | c # _ \<Rightarrow> c = CHR ''-'');
          body = (case t of [] \<Rightarrow> [] | c # cs \<Rightarrow> if c = CHR ''-'' \<or> c = CHR ''+'' then cs else t)
      in if digits_ok body
         then Some (if neg then - digits_value body else digits_value body)
         else None)"

text \<open>
  \<open>parse_df_srt_time\<close>: the two unpacking assignments raise \<open>ValueError\<close> unless
  \<open>split\<close> returns exactly three and exactly two parts.
\<close>

definition parse_df_srt_time :: "string \<Rightarrow> py_error + real" where
  "parse_df_srt_time time_str =
     (case py_split CHR '':'' (py_strip time_str) of
        [hours, minutes, seconds_ms] \<Rightarrow>
          (case py_split CHR ''.'' seconds_ms of
             [seconds, milliseconds] \<Rightarrow>
               (case (py_int_str hours, py_int_str minutes, py_int_str seconds,
                      py_int_str milliseconds) of
                  (Some h, Some m, Some s, Some ms) \<Rightarrow>
                    Inr (real_of_int (h * 3600) + real_of_int (m * 60) + real_of_int s
                         + real_of_int ms / 1000)
                | _ \<Rightarrow> Inl ValueError)
           | _ \<Rightarrow> Inl ValueError)
      | _ \<Rightarrow> Inl ValueError)"

section \<open>SpeedSolver (\<open>process_chunk\<close>)\<close>

definition process_chunk :: "task_row list \<Rightarrow> real \<Rightarrow> real \<Rightarrow> py_error + real \<times> bool" where
  "process_chunk chunk_df accept min_speed =
     (case chunk_df of
        [] \<Rightarrow> Inl IndexError
      | _ # _ \<Rightarrow>
        (let chunk_durs = sum_list (map real_dur chunk_df);
             tol_durs = sum_list (map tol_dur chunk_df);
             durations = tol_durs - tolerance (last chunk_df);
             all_gaps = sum_list (map gap chunk_df) - gap (last chunk_df);
             speed_var_error = 0.1
         in if (chunk_durs + all_gaps) / accept < durations
              then Inr (py_round3 (max min_speed
                          ((chunk_durs + all_gaps) / (durations - speed_var_error))), True)
            else if chunk_durs / accept < durations
              then Inr (py_round3 (max min_speed (chunk_durs / (durations - speed_var_error))), False)
            else if (chunk_durs + all_gaps) / accept < tol_durs
              then Inr (py_round3 (max min_speed
                          ((chunk_durs + all_gaps) / (tol_durs - speed_var_error))), True)
            else Inr (py_round3 (chunk_durs / (tol_durs - speed_var_error)), False)))"

section \<open>TimelineRenderer (\<open>merge_chunks\<close>)\<close>

text \<open>
  The loop over the clips of one line: each clip goes through \<open>adjust_audio_speed\<close>, whose
  exception ends the whole stage, and the measured length of its output file moves the
  cursor.
\<close>

fun render_lines ::
  "real \<Rightarrow> real \<Rightarrow> (real \<times> real) list \<Rightarrow> clip list \<Rightarrow> py_error + real \<times> (real \<times> real) list" where
  "render_lines speed_factor cur_time new_times [] = Inr (cur_time, new_times)"
| "render_lines speed_factor cur_time new_times (c # cs) =
     (case adjust_audio_speed (clip_input_duration c) (clip_ffmpeg c) speed_factor of
        Inl e \<Rightarrow> Inl e
      | Inr _ \<Rightarrow>
          render_lines speed_factor (cur_time + clip_ad_dur c)
            (new_times @ [(cur_time, cur_time + clip_ad_dur c)]) cs)"

text \<open>
  \<open>tasks_df[tasks_df['number'] == n].index[0]\<close>: the first row whose number is \<open>n\<close>,
  \<open>IndexError\<close> when there is none.
\<close>

fun first_index :: "int \<Rightarrow> task_row list \<Rightarrow> nat option" where
  "first_index n [] = None"
| "first_index n (r # rs) =
     (if number r = n then Some 0 else map_option Suc (first_index n rs))"

text \<open>
  The loop \<open>for i, chunk_row in chunk_df.iterrows()\<close>, over the positions \<open>i\<close> still to
  come. \<open>chunk_df\<close> is the copy of the chunk's rows taken before the loop; the new times
  are written to \<open>tasks_df\<close>.
\<close>

fun render_rows ::
  "task_row list \<Rightarrow> real \<Rightarrow> bool \<Rightarrow> nat list \<Rightarrow> real \<Rightarrow> task_row list
     \<Rightarrow> py_error + real \<times> task_row list" where
  "render_rows chunk_df speed_factor keep_gaps [] cur_time tasks_df = Inr (cur_time, tasks_df)"
| "render_rows chunk_df speed_factor keep_gaps (i # rest) cur_time tasks_df =
     (let cur_time1 = (if i \<noteq> 0 \<and> keep_gaps
                       then cur_time + gap (chunk_df ! (i - 1)) / speed_factor
                       else cur_time)
      in case render_lines speed_factor cur_time1 [] (lines (chunk_df ! i)) of
           Inl e \<Rightarrow> Inl e
         | Inr (cur_time2, new_times) \<Rightarrow>
             (case first_index (number (chunk_df ! i)) tasks_df of
                None \<Rightarrow> Inl IndexError
              | Some main_df_idx \<Rightarrow>
                  render_rows chunk_df speed_factor keep_gaps rest cur_time2
                    (tasks_df[main_df_idx := (tasks_df ! main_df_idx)\<lparr>new_sub_times := Some new_times\<rparr>])))"

text \<open>
  What one chunk leaves behind: the solver's answer, the chunk's start and nominal end, the
  cursor after the last clip (before any correction), the table, and the cuts made to
  output files, each as (number, line index, \<open>k\<close>) for \<open>audio[:k]\<close>.
\<close>

record rendered =
  r_speed_factor :: real
  r_keep_gaps :: bool
  r_chunk_start_time :: real
  r_chunk_end_time :: real
  r_cur_time :: real
  r_tasks :: "task_row list"
  r_trims :: "(int \<times> int \<times> int) list"

text \<open>
  Step 5 of the chunk body, entered when the overflow \<open>time_diff\<close> is at most 0.6: the
  last output file of the chunk's last line is cut and the end of its last recorded pair
  is overwritten. With no clip in the last line the file \<open>{number}_-1\<close> is opened, which
  no step writes.
\<close>

definition trim_overflow ::
  "task_row list \<Rightarrow> real \<Rightarrow> real \<Rightarrow> task_row list \<Rightarrow> py_error + task_row list \<times> (int \<times> int \<times> int) list" where
  "trim_overflow chunk_df time_diff chunk_end_time tasks_df =
     (let last_row_in_chunk = last chunk_df;
          last_number = number last_row_in_chunk;
          last_lines = lines last_row_in_chunk;
          last_line_index = int (length last_lines) - 1
      in case last_lines of
           [] \<Rightarrow> Inl FileNotFoundError
         | _ # _ \<Rightarrow>
           (let original_duration_ms = clip_len_ms (last last_lines);
                new_duration_ms = real_of_int original_duration_ms - time_diff * 1000;
                trim = (last_number, last_line_index, py_int new_duration_ms)
            in case first_index last_number tasks_df of
                 None \<Rightarrow> Inl IndexError
               | Some main_df_idx \<Rightarrow>
                   (case new_sub_times (tasks_df ! main_df_idx) of
                      None \<Rightarrow> Inl TypeError
                    | Some [] \<Rightarrow> Inl IndexError
                    | Some (t # ts) \<Rightarrow>
                        (let last_times = (t # ts)[length ts := (fst (last (t # ts)), chunk_end_time)]
                         in Inr (tasks_df[main_df_idx :=
                                   (tasks_df ! main_df_idx)\<lparr>new_sub_times := Some last_times\<rparr>],
                                 [trim])))))"

text \<open>
  The body of \<open>merge_chunks\<close> for the chunk that ends at row \<open>index\<close>, steps 1 to 5.
\<close>

definition render_chunk ::
  "real \<Rightarrow> real \<Rightarrow> task_row list \<Rightarrow> nat \<Rightarrow> nat \<Rightarrow> py_error + rendered" where
  "render_chunk accept min_speed tasks_df chunk_start_index index =
     (let chunk_df = take (index + 1 - chunk_start_index) (drop chunk_start_index tasks_df)
      in case process_chunk chunk_df accept min_speed of
           Inl e \<Rightarrow> Inl e
         | Inr (speed_factor, keep_gaps) \<Rightarrow>
           (case parse_df_srt_time (start_time_str (chunk_df ! 0)) of
              Inl e \<Rightarrow> Inl e
            | Inr chunk_start_time \<Rightarrow>
              (case parse_df_srt_time (end_time_str (last chunk_df)) of
                 Inl e \<Rightarrow> Inl e
               | Inr end_time \<Rightarrow>
                 (let chunk_end_time = end_time + tolerance (last chunk_df)
                  in case render_rows chunk_df speed_factor keep_gaps [0..<length chunk_df]
                            chunk_start_time tasks_df of
                       Inl e \<Rightarrow> Inl e
                     | Inr (cur_time, tasks_df1) \<Rightarrow>
                       (let res = \<lparr>r_speed_factor = speed_factor, r_keep_gaps = keep_gaps,
                                   r_chunk_start_time = chunk_start_time,
                                   r_chunk_end_time = chunk_end_time, r_cur_time = cur_time,
                                   r_tasks = tasks_df1, r_trims = []\<rparr>
                        in if cur_time > chunk_end_time
                           then (let time_diff = cur_time - chunk_end_time
                                 in if time_diff \<le> 0.6
                                    then (case trim_overflow chunk_df time_diff chunk_end_time
                                                 tasks_df1 of
                                            Inl e \<Rightarrow> Inl e
                                          | Inr (tasks_df2, trims) \<Rightarrow>
                                              Inr (res\<lparr>r_tasks := tasks_df2, r_trims := trims\<rparr>))
                                    else Inr res)
                           else Inr res)))))"

text \<open>
  \<open>merge_chunks\<close>: the loop \<open>for index, row in tasks_df.iterrows()\<close>, with the chunk
  start, the table and the cuts made so far as its state.
\<close>

fun merge_chunks_loop ::
  "real \<Rightarrow> real \<Rightarrow> nat list \<Rightarrow> nat \<Rightarrow> task_row list \<Rightarrow> (int \<times> int \<times> int) list
     \<Rightarrow> py_error + task_row list \<times> (int \<times> int \<times> int) list" where
  "merge_chunks_loop accept min_speed [] chunk_start_index tasks_df trims = Inr (tasks_df, trims)"
| "merge_chunks_loop accept min_speed (index # rest) chunk_start_index tasks_df trims =
     (if cut_off (tasks_df ! index) = 1
      then (case render_chunk accept min_speed tasks_df chunk_start_index index of
              Inl e \<Rightarrow> Inl e
            | Inr r \<Rightarrow>
                merge_chunks_loop accept min_speed rest (index + 1) (r_tasks r) (trims @ r_trims r))
      else merge_chunks_loop accept min_speed rest chunk_start_index tasks_df trims)"

definition merge_chunks ::
  "real \<Rightarrow> real \<Rightarrow> task_row list \<Rightarrow> py_error + task_row list \<times> (int \<times> int \<times> int) list" where
  "merge_chunks accept min_speed tasks_df =
     (let df0 = map (\<lambda>r. r\<lparr>new_sub_times := None\<rparr>) tasks_df
      in merge_chunks_loop accept min_speed [0..<length df0] 0 df0 [])"

section \<open>Synthesis dispatcher (\<open>generate_tts_audio\<close>)\<close>

definition WARMUP_SIZE :: nat where
  "WARMUP_SIZE = 5"

text \<open>
  \<open>process_row\<close>: \<open>tts_main\<close> for each line in turn, the lengths of the temporary files
  summed. \<open>clip_tts c = None\<close> says that \<open>tts_main\<close> raises for that line (its own
  retries exhausted).
\<close>

fun tts_lines :: "real \<Rightarrow> clip list \<Rightarrow> py_error + real" where
  "tts_lines dur [] = Inr dur"
| "tts_lines dur (c # cs) =
     (case clip_tts c of
        None \<Rightarrow> Inl SynthesisError
      | Some d \<Rightarrow> tts_lines (dur + d) cs)"

definition process_row :: "task_row \<Rightarrow> py_error + int \<times> real" where
  "process_row row =
     (case tts_lines 0 (lines row) of
        Inl e \<Rightarrow> Inl e
      | Inr dur \<Rightarrow> Inr (number row, dur))"

text \<open>The warm-up loop: an exception is printed and raised again.\<close>

fun warmup :: "nat list \<Rightarrow> task_row list \<Rightarrow> py_error + task_row list" where
  "warmup [] tasks_df = Inr tasks_df"
| "warmup (index # rest) tasks_df =
     (case process_row (tasks_df ! index) of
        Inl e \<Rightarrow> Inl e
      | Inr (_, dur) \<Rightarrow> warmup rest (tasks_df[index := (tasks_df ! index)\<lparr>real_dur := dur\<rparr>]))"

text \<open>
  The loop over \<open>as_completed\<close>: the futures come back in some order \<open>done\<close> of the
  submitted rows, and each result, or the mark -1 for an exception, is written to its own
  row. The rows were read when the tasks were submitted (\<open>rows\<close>).
\<close>

fun collect :: "task_row list \<Rightarrow> nat list \<Rightarrow> task_row list \<Rightarrow> task_row list" where
  "collect rows [] tasks_df = tasks_df"
| "collect rows (original_index # done) tasks_df =
     (case process_row (rows ! original_index) of
        Inl e \<Rightarrow> collect rows done (tasks_df[original_index := (tasks_df ! original_index)\<lparr>real_dur := -1\<rparr>])
      | Inr (_, dur) \<Rightarrow> collect rows done (tasks_df[original_index := (tasks_df ! original_index)\<lparr>real_dur := dur\<rparr>]))"

text \<open>
  \<open>generate_tts_audio\<close>; \<open>done\<close> is the order in which the pool completes the rows
  \<open>warmup_size .. len(tasks_df) - 1\<close>.
\<close>

definition generate_tts_audio :: "nat list \<Rightarrow> task_row list \<Rightarrow> py_error + task_row list" where
  "generate_tts_audio done tasks_df =
     (let df0 = map (\<lambda>r. r\<lparr>real_dur := 0\<rparr>) tasks_df;
          warmup_size = min WARMUP_SIZE (length df0)
      in case warmup [0..<warmup_size] df0 of
           Inl e \<Rightarrow> Inl e
         | Inr df1 \<Rightarrow>
             if length df1 > warmup_size then Inr (collect df1 done df1) else Inr df1)"

section \<open>TimestampAligner (\<open>get_sentence_timestamps\<close>, \<open>core/_6_gen_sub.py\<close>)\<close>

text \<open>
  Python strings are sequences of code points, of any type \<open>'c\<close> here. What Python's
  Unicode tables decide is a parameter: the space character, the class \<open>\s\<close> (which is also
  what \<open>str.strip\<close> removes), the class \<open>\w\<close>, and \<open>str.lower\<close>.
\<close>

record 'c unicode =
  u_space :: 'c
  u_isspace :: "'c \<Rightarrow> bool"
  u_isword :: "'c \<Rightarrow> bool"
  u_lower :: "'c list \<Rightarrow> 'c list"

text \<open>
  \<open>re.sub(r'\s+', ' ', text)\<close>: every maximal run of white space becomes one space. The
  flag says that the character before was white space.
\<close>

fun collapse_ws :: "'c unicode \<Rightarrow> bool \<Rightarrow> 'c list \<Rightarrow> 'c list" where
  "collapse_ws U in_run [] = []"
| "collapse_ws U in_run (c # cs) =
     (if u_isspace U c
      then (if in_run then collapse_ws U True cs else u_space U # collapse_ws U True cs)
      else c # collapse_ws U False cs)"

definition remove_punctuation :: "'c unicode \<Rightarrow> 'c list \<Rightarrow> 'c list" where
  "remove_punctuation U text0 =
     (let text1 = collapse_ws U False text0;
          text2 = filter (\<lambda>c. u_isword U c \<or> u_isspace U c) text1;
          text3 = u_lower U text2
      in rev (dropWhile (u_isspace U) (rev (dropWhile (u_isspace U) text3))))"

record 'c word =
  w_text :: "'c list"
  w_start :: real
  w_end :: real

text \<open>
  The first loop: the cleaned words are appended to \<open>full_words_str\<close> and every new
  position is mapped to the index of its word.
\<close>

fun build_index ::
  "'c unicode \<Rightarrow> nat \<Rightarrow> 'c word list \<Rightarrow> 'c list \<times> (nat \<rightharpoonup> nat) \<Rightarrow> 'c list \<times> (nat \<rightharpoonup> nat)" where
  "build_index U idx [] st = st"
| "build_index U idx (w # ws) (full_words_str, position_to_word_idx) =
     (let clean_word = remove_punctuation U (w_text w);
          start_pos = length full_words_str;
          full' = full_words_str @ clean_word
      in build_index U (idx + 1) ws
           (full', fold (\<lambda>pos m. m(pos \<mapsto> idx)) [start_pos..<length full'] position_to_word_idx))"

text \<open>
  The \<open>while search_pos <= len(full_words_str) - sentence_len\<close> loop: the first position
  from \<open>search_pos\<close> on at which the slice equals the sentence, \<open>None\<close> when the loop ends
  with \<open>match_found\<close> false.
\<close>

function find_match :: "'c list \<Rightarrow> 'c list \<Rightarrow> nat \<Rightarrow> nat option" where
  "find_match full_words_str clean_sentence search_pos =
     (if search_pos + length clean_sentence \<le> length full_words_str then
        (if take (length clean_sentence) (drop search_pos full_words_str) = clean_sentence
         then Some search_pos
         else find_match full_words_str clean_sentence (search_pos + 1))
      else None)"
  by pat_completeness auto
termination
  by (relation "measure (\<lambda>(full_words_str, clean_sentence, search_pos).
                   Suc (length full_words_str) - search_pos)") auto

text \<open>
  The body of the loop over the sentences: the new cursor and the pair appended to
  \<open>time_stamp_list\<close>. A sentence that cleans to nothing gets \<open>(0.0, 0.0)\<close>; a sentence
  that is not found ends the stage with \<open>ValueError\<close> (after the diagnostic output).
\<close>

definition align_sentence ::
  "'c unicode \<Rightarrow> 'c word list \<Rightarrow> 'c list \<Rightarrow> (nat \<rightharpoonup> nat) \<Rightarrow> nat \<Rightarrow> 'c list
     \<Rightarrow> py_error + nat \<times> (real \<times> real)" where
  "align_sentence U df_words full_words_str position_to_word_idx current_pos sentence =
     (let clean_sentence = filter (\<lambda>c. c \<noteq> u_space U) (remove_punctuation U sentence);
          sentence_len = length clean_sentence
      in if clean_sentence = [] then Inr (current_pos, (0, 0))
         else (case find_match full_words_str clean_sentence current_pos of
                 None \<Rightarrow> Inl ValueError
               | Some search_pos \<Rightarrow>
                   (case position_to_word_idx search_pos of
                      None \<Rightarrow> Inl KeyError
                    | Some start_word_idx \<Rightarrow>
                        (case position_to_word_idx (search_pos + sentence_len - 1) of
                           None \<Rightarrow> Inl KeyError
                         | Some end_word_idx \<Rightarrow>
                             Inr (search_pos + sentence_len,
                                  (w_start (df_words ! start_word_idx),
                                   w_end (df_words ! end_word_idx)))))))"

fun align_loop ::
  "'c unicode \<Rightarrow> 'c word list \<Rightarrow> 'c list \<Rightarrow> (nat \<rightharpoonup> nat) \<Rightarrow> nat \<Rightarrow> (real \<times> real) list
     \<Rightarrow> 'c list list \<Rightarrow> py_error + nat \<times> (real \<times> real) list" where
  "align_loop U df_words full_words_str position_to_word_idx current_pos time_stamp_list [] =
     Inr (current_pos, time_stamp_list)"
| "align_loop U df_words full_words_str position_to_word_idx current_pos time_stamp_list
     (sentence # rest) =
     (case align_sentence U df_words full_words_str position_to_word_idx current_pos sentence of
        Inl e \<Rightarrow> Inl e
      | Inr (current_pos', stamp) \<Rightarrow>
          align_loop U df_words full_words_str position_to_word_idx current_pos'
            (time_stamp_list @ [stamp]) rest)"

definition get_sentence_timestamps ::
  "'c unicode \<Rightarrow> 'c word list \<Rightarrow> 'c list list \<Rightarrow> py_error + (real \<times> real) list" where
  "get_sentence_timestamps U df_words sentences =
     (case build_index U 0 df_words ([], Map.empty) of
        (full_words_str, position_to_word_idx) \<Rightarrow>
          (case align_loop U df_words full_words_str position_to_word_idx 0 [] sentences of
             Inl e \<Rightarrow> Inl e
           | Inr (_, time_stamp_list) \<Rightarrow> Inr time_stamp_list))"

text \<open>
  The tables restricted to ASCII, used to evaluate the aligner on examples: white space,
  letters, digits and the underscore, and lower case of the 26 capital letters.
\<close>

definition ascii_isword :: "char \<Rightarrow> bool" where
  "ascii_isword c =
     (let n = (of_char c :: nat)
      in (48 \<le> n \<and> n \<le> 57) \<or> (65 \<le> n \<and> n \<le> 90) \<or> (97 \<le> n \<and> n \<le> 122) \<or> n = 95)"

definition ascii_lower :: "char \<Rightarrow> char" where
  "ascii_lower c =
     (let n = (of_char c :: nat) in if 65 \<le> n \<and> n \<le> 90 then char_of (n + 32) else c)"

definition ascii :: "char unicode" where
  "ascii = \<lparr>u_space = CHR '' '', u_isspace = py_isspace, u_isword = ascii_isword,
            u_lower = map ascii_lower\<rparr>"

section \<open>Rows for the worked examples\<close>

text \<open>
  A row of the renderer's table with the columns the renderer reads; the other columns are
  empty. A clip whose files measure \<open>d\<close> seconds throughout and whose \<open>ffmpeg\<close> run
  succeeds with \<open>out\<close> seconds.
\<close>

definition example_row ::
  "int \<Rightarrow> string \<Rightarrow> string \<Rightarrow> real \<Rightarrow> real \<Rightarrow> real \<Rightarrow> real \<Rightarrow> int \<Rightarrow> clip list \<Rightarrow> task_row" where
  "example_row n start_str end_str g tol td rd co cs =
     \<lparr>number = n, start_time_str = start_str, end_time_str = end_str, duration = td - tol,
      sub_text = [], gap = g, tolerance = tol, tol_dur = td, est_dur = 0, if_too_fast = 0,
      cut_off = co, lines = cs, real_dur = rd, new_sub_times = None\<rparr>"

definition example_clip :: "real \<Rightarrow> real \<Rightarrow> clip" where
  "example_clip d out =
     \<lparr>clip_tts = Some d, clip_input_duration = d, clip_ffmpeg = (\<lambda>_. Some out),
      clip_ad_dur = out, clip_len_ms = \<lfloor>out * 1000\<rfloor>\<rparr>"

text \<open>
  A line of the analyzer's table as \<open>_8_1_audio_task\<close> hands it over, and a clock reading
  for the examples.
\<close>

definition example_line :: "int \<Rightarrow> string \<Rightarrow> string \<Rightarrow> real \<Rightarrow> string \<Rightarrow> sub_row" where
  "example_line n start_str end_str d txt =
     \<lparr>number = n, start_time_str = start_str, end_time_str = end_str, duration = d,
      sub_text = txt, gap = 0, tolerance = 0, tol_dur = 0, est_dur = 0, if_too_fast = 0,
      cut_off = 0\<rparr>"

definition example_to_time :: "string \<Rightarrow> py_time option" where
  "example_to_time s =
     (if s = ''00:00:00,000'' then Some \<lparr>hour = 0, minute = 0, second = 0, microsecond = 0\<rparr>
      else if s = ''00:00:02,000'' then Some \<lparr>hour = 0, minute = 0, second = 2, microsecond = 0\<rparr>
      else if s = ''00:00:02,300'' then Some \<lparr>hour = 0, minute = 0, second = 2, microsecond = 300000\<rparr>
      else if s = ''00:00:04,000'' then Some \<lparr>hour = 0, minute = 0, second = 4, microsecond = 0\<rparr>
      else None)"

section \<open>Chunks of a marked table\<close>

text \<open>
  The table cut after every line with \<open>cut_off = 1\<close>, as \<open>merge_chunks\<close> slices it (rows
  \<open>chunk_start_index\<close> to \<open>index\<close> at every marked \<open>index\<close>). \<open>cur\<close> holds the lines since
  the last cut; the second component of the result holds the lines after the last mark,
  which belong to no chunk.
\<close>

fun chunks_of ::
  "'a sub_row_scheme list \<Rightarrow> 'a sub_row_scheme list
     \<Rightarrow> 'a sub_row_scheme list list \<times> 'a sub_row_scheme list" where
  "chunks_of cur [] = ([], cur)"
| "chunks_of cur (r # rs) =
     (if cut_off r = 1
      then (case chunks_of [] rs of (cs, rest) \<Rightarrow> ((cur @ [r]) # cs, rest))
      else chunks_of (cur @ [r]) rs)"

text \<open>
  A line without its mark, and: the second table is the first one with marks added (the
  same lines, no mark lost).
\<close>

definition unmark :: "sub_row \<Rightarrow> sub_row" where
  "unmark r = r\<lparr>cut_off := 0\<rparr>"

definition marks_kept :: "sub_row list \<Rightarrow> sub_row list \<Rightarrow> bool" where
  "marks_kept df out \<longleftrightarrow>
     map unmark out = map unmark df
     \<and> (\<forall>i < length df. cut_off (df ! i) = 1 \<longrightarrow> cut_off (out ! i) = 1)"

text \<open>
  An analyzed line for the examples: number, duration, gap, estimated duration and flag,
  with the tolerance and the tolerable duration the analyzer derives for \<open>TOLERANCE\<close>.
\<close>

definition example_analyzed :: "real \<Rightarrow> int \<Rightarrow> real \<Rightarrow> real \<Rightarrow> real \<Rightarrow> int \<Rightarrow> sub_row" where
  "example_analyzed TOLERANCE n d g ed flag =
     \<lparr>number = n, start_time_str = [], end_time_str = [], duration = d, sub_text = [],
      gap = g, tolerance = min g TOLERANCE, tol_dur = d + min g TOLERANCE, est_dur = ed,
      if_too_fast = flag, cut_off = 0\<rparr>"

definition example_table :: "sub_row list" where
  "example_table =
     [example_analyzed 0.5 1 2.0 0.6 4.0 2,
      example_analyzed 0.5 2 1.0 0.1 1.3 1,
      example_analyzed 0.5 3 1.0 0.2 1.4 1,
      example_analyzed 0.5 4 2.0 0.0 1.0 0,
      example_analyzed 0.5 5 2.0 1.0 1.0 (-1)]"

text \<open>
  A batch of seven tasks for the dispatcher: the sixth task's only line fails in
  \<open>tts_main\<close>, the seventh has two lines.
\<close>

definition example_batch :: "task_row list" where
  "example_batch =
     [example_row 1 [] [] 0 0 0 0 1 [example_clip 1 1],
      example_row 2 [] [] 0 0 0 0 1 [example_clip 1 1],
      example_row 3 [] [] 0 0 0 0 1 [example_clip 1 1],
      example_row 4 [] [] 0 0 0 0 1 [example_clip 1 1],
      example_row 5 [] [] 0 0 0 0 1 [example_clip 1 1],
      example_row 6 [] [] 0 0 0 0 1 [(example_clip 1 1)\<lparr>clip_tts := None\<rparr>],
      example_row 7 [] [] 0 0 0 0 1 [example_clip 1 1, example_clip 1.5 1.5]]"

text \<open>
  Names for what the aligner's loop talks about: the sentence as it is searched for, the
  whole \<open>full_words_str\<close>, and the number of characters the first \<open>k\<close> words contribute
  to it, so that word \<open>k\<close> occupies the positions from \<open>word_offset k\<close> up to
  \<open>word_offset (k + 1)\<close>.
\<close>

definition clean_sentence :: "'c unicode \<Rightarrow> 'c list \<Rightarrow> 'c list" where
  "clean_sentence U sentence = filter (\<lambda>c. c \<noteq> u_space U) (remove_punctuation U sentence)"

definition full_text :: "'c unicode \<Rightarrow> 'c word list \<Rightarrow> 'c list" where
  "full_text U df_words = concat (map (\<lambda>w. remove_punctuation U (w_text w)) df_words)"

definition word_offset :: "'c unicode \<Rightarrow> 'c word list \<Rightarrow> nat \<Rightarrow> nat" where
  "word_offset U df_words k = length (full_text U (take k df_words))"

text \<open>Three recognized words and three subtitle lines for the examples.\<close>

definition example_words :: "char word list" where
  "example_words =
     [\<lparr>w_text = ''Hello,'', w_start = 1, w_end = 2\<rparr>,
      \<lparr>w_text = ''big'', w_start = 2, w_end = 3\<rparr>,
      \<lparr>w_text = ''World!'', w_start = 3.5, w_end = 4\<rparr>]"

definition example_sentences :: "string list" where
  "example_sentences = [''hello big'', ''...'', ''WORLD'']"

text \<open>
  Three tables for the renderer. In the first a chunk of two lines is rendered in regime 4
  and overflows its nominal end by 0.09 s; in the second a chunk of one long line
  overflows by 0.65 s. In the third a chunk of one line ends with the 100 ms of silence
  that \<open>tts_main\<close> writes for an empty or one-character text (85 ms after the speed
  change), and the cursor passes the nominal end by 0.185 s.
\<close>

definition example_tasks :: "task_row list" where
  "example_tasks =
     [example_row 1 ''00:00:00.000'' ''00:00:05.000'' 0 0 5 6 0 [example_clip 6 5.04],
      example_row 2 ''00:00:05.000'' ''00:00:10.000'' 0.2 0.2 5.2 6.24 1 [example_clip 6.24 5.25]]"

definition example_long :: "task_row list" where
  "example_long =
     [example_row 1 ''00:00:00.000'' ''00:00:40.000'' 0 0 40 60 1 [example_clip 60 40.65]]"

definition example_short :: "task_row list" where
  "example_short =
     [example_row 1 ''00:00:00.000'' ''00:00:40.000'' 0.5 0.5 40.5 48.1 1
        [example_clip 48 40.6, example_clip 0.1 0.085]]"

text \<open>
  A row without what the renderer writes: \<open>merge_chunks\<close> starts by setting the column
  \<open>new_sub_times\<close> to \<open>None\<close> and writes no other column.
\<close>

definition unsub :: "task_row \<Rightarrow> task_row" where
  "unsub r = r\<lparr>new_sub_times := None\<rparr>"

section \<open>Properties of the speed classification\<close>

text \<open>
  C5. \<open>calc_if_too_fast\<close> returns 2 exactly when \<open>est_dur / accept > tol_dur\<close>; otherwise 1
  exactly when \<open>est_dur > tol_dur\<close>; otherwise -1 exactly when
  \<open>est_dur < duration - tolerance\<close>; and 0 in all remaining cases. For a line with
  duration 2.0, gap 0.3 and global tolerance 0.5 (so tolerance 0.3 and tol_dur 2.3) and
  est_dur 2.1 the flag is 0, at every acceptable pace of at least 1.
\<close>

theorem calc_if_too_fast_cases:
  assumes "accept \<noteq> 0"
  shows "(calc_if_too_fast accept e t d tol = 2
            \<longleftrightarrow> e / accept > t)
       \<and> (calc_if_too_fast accept e t d tol = 1
            \<longleftrightarrow> \<not> e / accept > t \<and> e > t)
       \<and> (calc_if_too_fast accept e t d tol = -1
            \<longleftrightarrow> \<not> e / accept > t \<and> \<not> e > t
                \<and> e < d - tol)
       \<and> (calc_if_too_fast accept e t d tol = 0
            \<longleftrightarrow> \<not> e / accept > t \<and> \<not> e > t
                \<and> \<not> e < d - tol)
       \<and> calc_if_too_fast accept e t d tol \<in> {2, 1, -1, 0}
       \<and> (1 \<le> accept \<longrightarrow>
            calc_if_too_fast accept 2.1 (2.0 + min 0.3 0.5) 2.0 (min 0.3 0.5) = 0)"
proof -
  have ex: "calc_if_too_fast accept 2.1 (2.0 + min 0.3 0.5) 2.0 (min 0.3 0.5) = 0"
    if a: "1 \<le> accept"
  proof -
    have "(21 / 10) / accept \<le> 21 / 10"
      using a by (simp add: field_simps)
    then show ?thesis
      by (simp add: calc_if_too_fast_def)
  qed
  show ?thesis
    using ex by (simp add: calc_if_too_fast_def)
qed

theorem calc_if_too_fast_cases_witness:
  "calc_if_too_fast 1.2 2.1 2.3 2.0 0.3 = 0
   \<and> calc_if_too_fast 1.2 3 2.3 2.0 0.3 = 2
   \<and> calc_if_too_fast 1.2 2.5 2.3 2.0 0.3 = 1
   \<and> calc_if_too_fast 1.2 1 2.3 2.0 0.3 = -1"
proof -
  have nz: "(1.2::real) \<noteq> 0" by simp
  have a: "calc_if_too_fast 1.2 2.1 (2.0 + min 0.3 0.5) 2.0 (min 0.3 0.5) = 0"
    using calc_if_too_fast_cases [OF nz, of 0 0 0 0] by simp
  have b: "calc_if_too_fast 1.2 3 2.3 2.0 0.3 = 2"
    using calc_if_too_fast_cases [OF nz, of 3 "2.3" "2.0" "0.3"] by simp
  have c: "calc_if_too_fast 1.2 2.5 2.3 2.0 0.3 = 1"
    using calc_if_too_fast_cases [OF nz, of "2.5" "2.3" "2.0" "0.3"] by simp
  have d: "calc_if_too_fast 1.2 1 2.3 2.0 0.3 = -1"
    using calc_if_too_fast_cases [OF nz, of 1 "2.3" "2.0" "0.3"] by simp
  from a b c d show ?thesis by simp
qed

section \<open>Properties of the speed-change corrector\<close>

lemma attempts_first_success:
  assumes "ffmpeg 0 = Some out \<or> (ffmpeg 0 = None \<and> ffmpeg 1 = Some out)"
  shows "attempts d s ffmpeg [0..<max_retries] = check_output d s out"
proof -
  have "[0..<max_retries] = [0, 1]"
    by (simp add: max_retries_def upt_rec)
  then show ?thesis
    using assms by (auto simp: max_retries_def)
qed

lemma py_int_bounds:
  assumes "0 \<le> x"
  shows "py_int x = \<lfloor>x\<rfloor>" "real_of_int (py_int x) \<le> x" "x < real_of_int (py_int x) + 1"
  using assms by (simp_all add: py_int_def)

text \<open>
  C3. Let the speed factor differ from 1 by at least 0.001, so that \<open>ffmpeg\<close> runs, and
  let it succeed at the first or the second attempt with an output of \<open>out\<close> seconds.
  With a relative excess of at least 2 percent over the theoretical length \<open>d / s\<close>, a
  raw clip under 3 seconds and an absolute excess of at most 0.1 seconds, the call succeeds
  and the output is cut to the theoretical length at the millisecond resolution of the
  audio, \<open>audio[:int(d / s * 1000)]\<close>: the whole milliseconds of \<open>d / s\<close>, never
  above it and less than a millisecond below. With a relative excess of at least 2 percent
  in every other case the drift error is raised. With a relative excess under 2 percent
  the output is left as it is. On a raw clip of 2 s at factor 1.5 with an output of 1.36 s
  the clip is cut to 1.333 s.
\<close>

theorem adjust_audio_speed_drift:
  assumes called: "\<not> \<bar>s - 1\<bar> < 0.001"
      and pos: "0 < s" "0 < d"
      and run: "ffmpeg 0 = Some out \<or> (ffmpeg 0 = None \<and> ffmpeg 1 = Some out)"
  shows "((out - d / s) / (d / s) \<ge> 0.02 \<and> d < 3 \<and> out - d / s \<le> 0.1 \<longrightarrow>
            (\<exists>ms. adjust_audio_speed d ffmpeg s = Inr (Trimmed ms)
               \<and> ms = \<lfloor>d / s * 1000\<rfloor>
               \<and> d / s - 0.001 < adjusted_duration d out (Trimmed ms)
               \<and> adjusted_duration d out (Trimmed ms) \<le> d / s))
       \<and> ((out - d / s) / (d / s) \<ge> 0.02 \<and> \<not> (d < 3 \<and> out - d / s \<le> 0.1) \<longrightarrow>
            adjust_audio_speed d ffmpeg s = Inl RuntimeError)
       \<and> ((out - d / s) / (d / s) < 0.02 \<longrightarrow>
            adjust_audio_speed d ffmpeg s = Inr Unmodified
            \<and> adjusted_duration d out Unmodified = out)"
proof -
  define e where "e = d / s"
  have e: "0 < e" using pos by (simp add: e_def)
  have rel: "((out - e) / e \<ge> 0.02) \<longleftrightarrow> out \<ge> e * 1.02"
    using e by (simp add: field_simps)
  have res: "adjust_audio_speed d ffmpeg s = check_output d s out"
    using called attempts_first_success [OF run] by (simp add: adjust_audio_speed_def)
  have nn: "0 \<le> e * 1000" using e by simp
  have b1: "real_of_int (py_int (e * 1000)) / 1000 \<le> e"
    using py_int_bounds(2) [OF nn] by simp
  have b2: "e - 0.001 < real_of_int (py_int (e * 1000)) / 1000"
    using py_int_bounds(3) [OF nn] by (simp add: field_simps)
  show ?thesis
    unfolding res e_def [symmetric]
    using rel b1 b2 py_int_bounds(1) [OF nn]
    by (auto simp: check_output_def Let_def e_def [symmetric])
qed

theorem adjust_audio_speed_drift_witness:
  "adjust_audio_speed 2 (\<lambda>_. Some 1.36) 1.5 = Inr (Trimmed 1333)
   \<and> adjusted_duration 2 1.36 (Trimmed 1333) = 1.333
   \<and> adjust_audio_speed 2 (\<lambda>_. Some 1.5) 1.5 = Inl RuntimeError
   \<and> adjust_audio_speed 4 (\<lambda>_. Some 2.75) 1.5 = Inl RuntimeError
   \<and> adjust_audio_speed 2 (\<lambda>_. Some 1.35) 1.5 = Inr Unmodified"
proof -
  have c: "\<not> \<bar>(1.5::real) - 1\<bar> < 0.001" by simp
  have p: "(0::real) < 1.5" "(0::real) < 2" "(0::real) < 4" by simp_all
  have r: "\<And>x::real. (\<lambda>_::nat. Some x) 0 = Some x \<or> ((\<lambda>_::nat. Some x) 0 = None \<and> (\<lambda>_::nat. Some x) 1 = Some x)"
    by simp
  have a1: "adjust_audio_speed 2 (\<lambda>_. Some 1.36) 1.5 = Inr (Trimmed 1333)"
    using adjust_audio_speed_drift [OF c p(1) p(2) r [of "1.36"]] by simp
  have a2: "adjust_audio_speed 2 (\<lambda>_. Some 1.5) 1.5 = Inl RuntimeError"
    using adjust_audio_speed_drift [OF c p(1) p(2) r [of "1.5"]] by simp
  have a3: "adjust_audio_speed 4 (\<lambda>_. Some 2.75) 1.5 = Inl RuntimeError"
    using adjust_audio_speed_drift [OF c p(1) p(3) r [of "2.75"]] by simp
  have a4: "adjust_audio_speed 2 (\<lambda>_. Some 1.35) 1.5 = Inr Unmodified"
    using adjust_audio_speed_drift [OF c p(1) p(2) r [of "1.35"]] by simp
  from a1 a2 a3 a4 show ?thesis by simp
qed

text \<open>
  C10. With a speed factor less than 0.001 away from 1 the input is copied and the function
  returns at once: the adjusted length is the raw length, whatever \<open>ffmpeg\<close> would have
  answered, and neither the cut nor the drift error happens.
\<close>

theorem adjust_audio_speed_near_one:
  assumes "\<bar>speed_factor - 1\<bar> < 0.001"
  shows "adjust_audio_speed input_duration ffmpeg speed_factor = Inr Copied
       \<and> adjusted_duration input_duration out Copied = input_duration
       \<and> adjust_audio_speed input_duration ffmpeg speed_factor \<noteq> Inl RuntimeError
       \<and> adjust_audio_speed input_duration ffmpeg speed_factor \<noteq> Inr (Trimmed ms)"
  using assms by (simp add: adjust_audio_speed_def)

theorem adjust_audio_speed_near_one_witness:
  "adjust_audio_speed 2 (\<lambda>_. Some 100) 1.0005 = Inr Copied
   \<and> adjust_audio_speed 2 (\<lambda>_. None) 0.9995 = Inr Copied"
proof -
  have h1: "\<bar>(1.0005::real) - 1\<bar> < 0.001" by simp
  have h2: "\<bar>(0.9995::real) - 1\<bar> < 0.001" by simp
  have a: "adjust_audio_speed 2 (\<lambda>_. Some 100) 1.0005 = Inr Copied"
    using adjust_audio_speed_near_one [OF h1] by simp
  have b: "adjust_audio_speed 2 (\<lambda>_. None) 0.9995 = Inr Copied"
    using adjust_audio_speed_near_one [OF h2] by simp
  from a b show ?thesis by simp
qed

section \<open>Properties of the SpeedSolver\<close>

lemma round_half_even_range:
  "round_half_even x = \<lfloor>x\<rfloor> \<or> round_half_even x = \<lfloor>x\<rfloor> + 1"
  by (simp add: round_half_even_def Let_def)

lemma round_half_even_mono:
  assumes "x \<le> y"
  shows "round_half_even x \<le> round_half_even y"
proof (cases "\<lfloor>x\<rfloor> = \<lfloor>y\<rfloor>")
  case True
  have "x - real_of_int \<lfloor>y\<rfloor> \<le> y - real_of_int \<lfloor>y\<rfloor>"
    using assms by simp
  then show ?thesis
    using True by (auto simp: round_half_even_def Let_def)
next
  case False
  have "\<lfloor>x\<rfloor> \<le> \<lfloor>y\<rfloor>"
    using assms by (rule floor_mono)
  with False have "\<lfloor>x\<rfloor> + 1 \<le> \<lfloor>y\<rfloor>"
    by simp
  moreover have "round_half_even x \<le> \<lfloor>x\<rfloor> + 1"
    using round_half_even_range [of x] by auto
  moreover have "\<lfloor>y\<rfloor> \<le> round_half_even y"
    using round_half_even_range [of y] by auto
  ultimately show ?thesis
    by linarith
qed

lemma round_half_even_of_int: "round_half_even (real_of_int k) = k"
  by (simp add: round_half_even_def)

lemma round_half_even_near:
  "real_of_int (round_half_even x) - x \<le> 1 / 2 \<and> x - real_of_int (round_half_even x) \<le> 1 / 2"
proof -
  define f where "f = \<lfloor>x\<rfloor>"
  have "real_of_int f \<le> x" "x < real_of_int f + 1"
    unfolding f_def by linarith+
  then show ?thesis
    unfolding round_half_even_def Let_def f_def [symmetric] by auto
qed

lemma py_round3_mono: "x \<le> y \<Longrightarrow> py_round3 x \<le> py_round3 y"
  using round_half_even_mono [of "x * 1000" "y * 1000"]
  by (simp add: py_round3_def divide_right_mono)

lemma py_round3_milli: "py_round3 (real_of_int k / 1000) = real_of_int k / 1000"
  by (simp add: py_round3_def round_half_even_of_int)

lemma py_round3_near: "x - 0.0005 \<le> py_round3 x \<and> py_round3 x \<le> x + 0.0005"
  using round_half_even_near [of "x * 1000"]
  by (simp add: py_round3_def field_simps)

lemma py_round3_floor:
  "py_round3 m \<le> py_round3 (max m v)"
  "m - 0.0005 \<le> py_round3 (max m v)"
  "m = real_of_int k / 1000 \<Longrightarrow> m \<le> py_round3 (max m v)"
proof -
  show a: "py_round3 m \<le> py_round3 (max m v)"
    by (rule py_round3_mono) simp
  show "m - 0.0005 \<le> py_round3 (max m v)"
    using a py_round3_near [of m] by linarith
  show "m \<le> py_round3 (max m v)" if "m = real_of_int k / 1000"
  proof -
    have "py_round3 m = m"
      unfolding that by (rule py_round3_milli)
    with a show ?thesis by simp
  qed
qed

text \<open>
  C1 (amended). For a chunk with \<open>cd\<close> the sum of the measured clip durations, \<open>td\<close>
  the sum of \<open>tol_dur\<close>, \<open>du\<close> = \<open>td\<close> minus the last line's tolerance and \<open>ag\<close>
  the sum of the gaps minus the last line's gap, \<open>process_chunk\<close> tries the four regimes
  in order and returns the regime's speed rounded to three decimals (\<open>round(x, 3)\<close>):
  regime 1 when \<open>(cd + ag) / accept < du\<close>, from \<open>max min_speed ((cd + ag) / (du - 0.1))\<close>
  with the gaps kept; regime 2 when \<open>cd / accept < du\<close>, from
  \<open>max min_speed (cd / (du - 0.1))\<close> with the gaps dropped; regime 3 when
  \<open>(cd + ag) / accept < td\<close>, from \<open>max min_speed ((cd + ag) / (td - 0.1))\<close> with the
  gaps kept; otherwise regime 4, from \<open>cd / (td - 0.1)\<close> with no floor and the gaps
  dropped. In regimes 1 to 3 the returned speed is at least \<open>min_speed\<close> rounded to
  three decimals, so at least \<open>min_speed - 0.0005\<close>, and at least \<open>min_speed\<close> when
  \<open>min_speed\<close> is a multiple of 0.001. On the worked example (witness) regime 1 gives
  1.111 with the gaps kept.
\<close>

theorem process_chunk_regimes:
  assumes ne: "chunk_df \<noteq> []"
      and acc: "accept \<noteq> 0"
      and cd: "cd = sum_list (map real_dur chunk_df)"
      and td: "td = sum_list (map tol_dur chunk_df)"
      and du: "du = td - tolerance (last chunk_df)"
      and ag: "ag = sum_list (map gap chunk_df) - gap (last chunk_df)"
      and den: "du \<noteq> 0.1" "td \<noteq> 0.1"
  shows "((cd + ag) / accept < du \<longrightarrow>
            process_chunk chunk_df accept min_speed
              = Inr (py_round3 (max min_speed ((cd + ag) / (du - 0.1))), True))
       \<and> (\<not> (cd + ag) / accept < du \<and> cd / accept < du \<longrightarrow>
            process_chunk chunk_df accept min_speed
              = Inr (py_round3 (max min_speed (cd / (du - 0.1))), False))
       \<and> (\<not> (cd + ag) / accept < du \<and> \<not> cd / accept < du \<and> (cd + ag) / accept < td \<longrightarrow>
            process_chunk chunk_df accept min_speed
              = Inr (py_round3 (max min_speed ((cd + ag) / (td - 0.1))), True))
       \<and> (\<not> (cd + ag) / accept < du \<and> \<not> cd / accept < du \<and> \<not> (cd + ag) / accept < td \<longrightarrow>
            process_chunk chunk_df accept min_speed = Inr (py_round3 (cd / (td - 0.1)), False))
       \<and> ((cd + ag) / accept < du \<or> cd / accept < du \<or> (cd + ag) / accept < td \<longrightarrow>
            (\<exists>speed keep_gaps.
               process_chunk chunk_df accept min_speed = Inr (speed, keep_gaps)
               \<and> py_round3 min_speed \<le> speed
               \<and> min_speed - 0.0005 \<le> speed
               \<and> ((\<exists>k. min_speed = real_of_int k / 1000) \<longrightarrow> min_speed \<le> speed)))"
proof -
  obtain r rs where c: "chunk_df = r # rs"
    using ne by (cases chunk_df) auto
  have pc: "process_chunk chunk_df accept min_speed =
     (if (cd + ag) / accept < du
        then Inr (py_round3 (max min_speed ((cd + ag) / (du - 0.1))), True)
      else if cd / accept < du
        then Inr (py_round3 (max min_speed (cd / (du - 0.1))), False)
      else if (cd + ag) / accept < td
        then Inr (py_round3 (max min_speed ((cd + ag) / (td - 0.1))), True)
      else Inr (py_round3 (cd / (td - 0.1)), False))"
    unfolding process_chunk_def c [symmetric] cd td du ag
    by (simp add: c Let_def)
  show ?thesis
    unfolding pc
    using py_round3_floor [of min_speed] by auto
qed


theorem process_chunk_regimes_witness:
  "process_chunk
     [example_row 1 ''00:00:00.000'' ''00:00:02.500'' 1 0.5 3 2 0 [],
      example_row 2 ''00:00:03.500'' ''00:00:06.000'' 0.5 0.5 3 3 1 []] 1.2 1
   = Inr (1.111, True)"
proof -
  let ?c = "[example_row 1 ''00:00:00.000'' ''00:00:02.500'' 1 0.5 3 2 0 [],
             example_row 2 ''00:00:03.500'' ''00:00:06.000'' 0.5 0.5 3 3 1 []]"
  have ne: "?c \<noteq> []" by simp
  have acc: "(1.2::real) \<noteq> 0" by simp
  have cd: "(5::real) = sum_list (map real_dur ?c)" by (simp add: example_row_def)
  have td: "(6::real) = sum_list (map tol_dur ?c)" by (simp add: example_row_def)
  have du: "(5.5::real) = 6 - tolerance (last ?c)" by (simp add: example_row_def)
  have ag: "(1::real) = sum_list (map gap ?c) - gap (last ?c)" by (simp add: example_row_def)
  have den: "(5.5::real) \<noteq> 0.1" "(6::real) \<noteq> 0.1" by simp_all
  have r3: "py_round3 (max 1 ((5 + 1) / (5.5 - 0.1))) = 1.111"
    by (simp add: py_round3_def round_half_even_def)
  from process_chunk_regimes [OF ne acc cd td du ag den, of 1] r3
  show ?thesis by simp
qed

text \<open>
  The returned speed is the rounded one: on the worked example it is 1.111, not
  \<open>6 / 5.4\<close>; and with \<open>min_speed = 1.0004\<close> regime 1 returns 1.0, below the floor.
\<close>

theorem process_chunk_rounding_counterexample:
  "process_chunk
     [example_row 1 ''00:00:00.000'' ''00:00:02.500'' 1 0.5 3 2 0 [],
      example_row 2 ''00:00:03.500'' ''00:00:06.000'' 0.5 0.5 3 3 1 []] 1.2 1
   = Inr (1.111, True)
   \<and> (1.111 :: real) \<noteq> max 1 ((5.0 + 1.0) / (5.5 - 0.1))
   \<and> process_chunk [example_row 1 ''00:00:00.000'' ''00:00:02.500'' 0.5 0.5 3 2 1 []] 1.2 1.0004
   = Inr (1, True)
   \<and> (1 :: real) < 1.0004"
  by (simp add: process_chunk_def example_row_def py_round3_def round_half_even_def)

section \<open>Properties of the TimingAnalyzer\<close>

lemma fold_set_gap:
  "k \<le> length d \<Longrightarrow>
   fold (\<lambda>i d. d[i := (d ! i)\<lparr>gap := g i\<rparr>]) [0..<k] d
     = map (\<lambda>i. if i < k then (d ! i)\<lparr>gap := g i\<rparr> else d ! i) [0..<length d]"
proof (induction k)
  case 0
  show ?case by (simp add: map_nth)
next
  case (Suc k)
  then have k: "k < length d" by simp
  have "fold (\<lambda>i d. d[i := (d ! i)\<lparr>gap := g i\<rparr>]) [0..<Suc k] d
          = (map (\<lambda>i. if i < k then (d ! i)\<lparr>gap := g i\<rparr> else d ! i) [0..<length d])
              [k := (d ! k)\<lparr>gap := g k\<rparr>]"
    using Suc k by simp
  also have "\<dots> = map (\<lambda>i. if i < Suc k then (d ! i)\<lparr>gap := g i\<rparr> else d ! i) [0..<length d]"
    using k by (intro nth_equalityI) (auto simp: nth_list_update)
  finally show ?case .
qed

lemma those_map_Some: "those (map Some xs) = Some xs"
  by (induction xs) simp_all

text \<open>
  C6. For a non-empty table whose time strings pandas can read (\<open>end_dt\<close> and
  \<open>start_dt\<close> are the times read), the analysis succeeds and for every line \<open>i\<close>:
  the gap is \<open>start[i+1] - end[i]\<close> when the line is not the last, the last line's gap is
  the whole audio length minus its end, the tolerance is \<open>min(gap, TOLERANCE)\<close> and
  \<open>tol_dur\<close> is the duration plus the tolerance.
\<close>

theorem analyze_gap_tolerance:
  assumes ne: "df \<noteq> []"
      and ends: "map (\<lambda>r. to_time (end_time_str r)) df = map Some end_dt"
      and starts: "map (\<lambda>r. to_time (start_time_str r)) df = map Some start_dt"
  shows "\<exists>out. analyze_subtitle_timing_and_speed to_time estimate TOLERANCE accept whole_dur df = Inr out
           \<and> length out = length df
           \<and> (\<forall>i < length df.
                 (i + 1 < length df \<longrightarrow>
                    gap (out ! i) = time_seconds (start_dt ! (i + 1)) - time_seconds (end_dt ! i))
               \<and> (i + 1 = length df \<longrightarrow> gap (out ! i) = whole_dur - time_seconds (end_dt ! i))
               \<and> tolerance (out ! i) = min (gap (out ! i)) TOLERANCE
               \<and> tol_dur (out ! i) = duration (df ! i) + tolerance (out ! i)
               \<and> duration (out ! i) = duration (df ! i))"
proof -
  define n where "n = length df"
  have n: "0 < n" using ne by (simp add: n_def)
  have le: "length end_dt = n" "length start_dt = n"
    using ends starts by (auto simp: n_def dest: map_eq_imp_length_eq)
  define df1 where "df1 = map (\<lambda>r. r\<lparr>gap := 0\<rparr>) df"
  define g where "g = (\<lambda>i. time_diff_seconds (end_dt ! i) (start_dt ! (i + 1)))"
  define df2 where "df2 = fold (\<lambda>i d. d[i := (d ! i)\<lparr>gap := g i\<rparr>]) [0..<length df1 - 1] df1"
  have l1: "length df1 = n" by (simp add: df1_def n_def)
  have df2: "df2 = map (\<lambda>i. if i < n - 1 then (df1 ! i)\<lparr>gap := g i\<rparr> else df1 ! i) [0..<n]"
    unfolding df2_def using fold_set_gap [of "length df1 - 1" df1 g] by (simp add: l1)
  have l2: "length df2 = n" by (simp add: df2)
  obtain r rs where c2: "df2 = r # rs"
    using l2 n by (cases df2) auto
  define df3 where "df3 = df2[length df2 - 1 := (last df2)\<lparr>gap := whole_dur - time_seconds (last end_dt)\<rparr>]"
  define out where "out = map (\<lambda>r. r\<lparr>if_too_fast :=
                           calc_if_too_fast accept (est_dur r) (tol_dur r) (duration r) (tolerance r)\<rparr>)
                 (map (\<lambda>r. r\<lparr>est_dur := estimate (sub_text r)\<rparr>)
                   (map (\<lambda>r. r\<lparr>tol_dur := duration r + tolerance r\<rparr>)
                     (map (\<lambda>r. r\<lparr>tolerance := min (gap r) TOLERANCE\<rparr>) df3)))"
  have t1: "map (\<lambda>r. to_time (end_time_str r)) df1 = map Some end_dt"
    using ends by (simp add: df1_def comp_def)
  have t2: "map (\<lambda>r. to_time (start_time_str r)) df1 = map Some start_dt"
    using starts by (simp add: df1_def comp_def)
  have res: "analyze_subtitle_timing_and_speed to_time estimate TOLERANCE accept whole_dur df = Inr out"
  proof -
    have e1: "fold (\<lambda>i d. d[i := (d ! i)\<lparr>gap :=
                 time_diff_seconds (end_dt ! i) (start_dt ! (i + 1))\<rparr>]) [0..<length df1 - 1] df1 = df2"
      by (simp add: df2_def g_def)
    show ?thesis
      unfolding analyze_subtitle_timing_and_speed_def Let_def df1_def [symmetric] t1 t2
        those_map_Some option.case e1
      by (simp add: c2 out_def df3_def)
  qed
  have l3: "length df3 = n" by (simp add: df3_def l2)
  have lo: "length out = n" by (simp add: out_def l3)
  have "end_dt \<noteq> []"
    using le n by auto
  then have last_end: "last end_dt = end_dt ! (n - 1)"
    using le by (simp add: last_conv_nth)
  have g3: "gap (df3 ! i) = (if i + 1 < n then g i else whole_dur - time_seconds (end_dt ! i))"
    and d3: "duration (df3 ! i) = duration (df ! i)" if "i < n" for i
    using that n l2 by (auto simp: df3_def df2 nth_list_update last_conv_nth last_end df1_def n_def)
  have "(i + 1 < n \<longrightarrow> gap (out ! i) = time_seconds (start_dt ! (i + 1)) - time_seconds (end_dt ! i))
      \<and> (i + 1 = n \<longrightarrow> gap (out ! i) = whole_dur - time_seconds (end_dt ! i))
      \<and> tolerance (out ! i) = min (gap (out ! i)) TOLERANCE
      \<and> tol_dur (out ! i) = duration (df ! i) + tolerance (out ! i)
      \<and> duration (out ! i) = duration (df ! i)" if "i < n" for i
    using that g3 [OF that] d3 [OF that] by (simp add: out_def l3 g_def time_diff_seconds_def)
  with res lo show ?thesis
    unfolding n_def by blast
qed


theorem analyze_gap_tolerance_witness:
  "(case analyze_subtitle_timing_and_speed example_to_time (\<lambda>_. 2.1) 0.5 1.2 5
           [example_line 1 ''00:00:00,000'' ''00:00:02,000'' 2.0 ''a'',
            example_line 2 ''00:00:02,300'' ''00:00:04,000'' 1.7 ''b''] of
      Inl _ \<Rightarrow> False
    | Inr out \<Rightarrow> map gap out = [0.3, 1] \<and> map tolerance out = [0.3, 0.5]
                 \<and> map tol_dur out = [2.3, 2.2])"
proof -
  let ?df = "[example_line 1 ''00:00:00,000'' ''00:00:02,000'' 2.0 ''a'',
              example_line 2 ''00:00:02,300'' ''00:00:04,000'' 1.7 ''b'']"
  let ?e = "[\<lparr>hour = 0, minute = 0, second = 2, microsecond = 0\<rparr>,
             \<lparr>hour = 0, minute = 0, second = 4, microsecond = 0\<rparr>]"
  let ?s = "[\<lparr>hour = 0, minute = 0, second = 0, microsecond = 0\<rparr>,
             \<lparr>hour = 0, minute = 0, second = 2, microsecond = 300000\<rparr>]"
  have ne: "?df \<noteq> []" by simp
  have ends: "map (\<lambda>r. example_to_time (end_time_str r)) ?df = map Some ?e"
    by (simp add: example_line_def example_to_time_def)
  have starts: "map (\<lambda>r. example_to_time (start_time_str r)) ?df = map Some ?s"
    by (simp add: example_line_def example_to_time_def)
  from analyze_gap_tolerance [OF ne ends starts, of "\<lambda>_. 2.1" "0.5" "1.2" 5]
  obtain out where res: "analyze_subtitle_timing_and_speed example_to_time (\<lambda>_. 2.1) 0.5 1.2 5 ?df = Inr out"
    and len: "length out = length ?df"
    and all: "\<forall>i < length ?df.
                 (i + 1 < length ?df \<longrightarrow>
                    gap (out ! i) = time_seconds (?s ! (i + 1)) - time_seconds (?e ! i))
               \<and> (i + 1 = length ?df \<longrightarrow> gap (out ! i) = 5 - time_seconds (?e ! i))
               \<and> tolerance (out ! i) = min (gap (out ! i)) 0.5
               \<and> tol_dur (out ! i) = duration (?df ! i) + tolerance (out ! i)
               \<and> duration (out ! i) = duration (?df ! i)"
    by blast
  obtain a b where out: "out = [a, b]"
    using len by (cases out; cases "tl out") auto
  have g0: "gap a = 0.3" and g1: "gap b = 1"
    using all [rule_format, of 0] all [rule_format, of 1]
    by (simp_all add: out time_seconds_def)
  have "tolerance a = 0.3" "tolerance b = 0.5" "tol_dur a = 2.3" "tol_dur b = 2.2"
    using all [rule_format, of 0] all [rule_format, of 1] g0 g1
    by (simp_all add: out example_line_def)
  with g0 g1 show ?thesis
    unfolding res by (simp add: out)
qed

section \<open>Properties of the ChunkPlanner\<close>

declare cutoff_loop.simps [simp del]
declare merge_rows_loop.simps [simp del]


lemma unmark_update: "unmark (r\<lparr>cut_off := v\<rparr>) = unmark r"
  by (simp add: unmark_def)

lemma marks_kept_length: "marks_kept df out \<Longrightarrow> length out = length df"
  unfolding marks_kept_def by (blast dest: map_eq_imp_length_eq)

lemma marks_kept_refl: "marks_kept df df"
  unfolding marks_kept_def by blast

lemma marks_kept_trans:
  assumes ab: "marks_kept a b" and bc: "marks_kept b c"
  shows "marks_kept a c"
proof -
  have len: "length b = length a"
    using ab by (rule marks_kept_length)
  have "map unmark c = map unmark a"
    using ab bc unfolding marks_kept_def by (elim conjE) (rule trans)
  moreover have "cut_off (c ! i) = 1" if "i < length a" "cut_off (a ! i) = 1" for i
    using ab bc that len unfolding marks_kept_def by metis
  ultimately show ?thesis
    unfolding marks_kept_def by blast
qed

lemma marks_kept_mark:
  assumes j: "j < length df"
  shows "marks_kept df (df[j := (df ! j)\<lparr>cut_off := 1\<rparr>])"
proof -
  have "map unmark (df[j := (df ! j)\<lparr>cut_off := 1\<rparr>]) = (map unmark df)[j := unmark (df ! j)]"
    by (simp only: map_update unmark_update)
  also have "\<dots> = map unmark df"
    using j by (metis list_update_id nth_map)
  finally have "map unmark (df[j := (df ! j)\<lparr>cut_off := 1\<rparr>]) = map unmark df" .
  moreover have "cut_off (df[j := (df ! j)\<lparr>cut_off := 1\<rparr>] ! i) = 1"
    if "i < length df" "cut_off (df ! i) = 1" for i
    using that by (cases "i = j") simp_all
  ultimately show ?thesis
    unfolding marks_kept_def by blast
qed

lemma merge_rows_loop_spec:
  assumes "1 \<le> merge_count" "start_idx + merge_count \<le> length df"
  shows "\<exists>n j. merge_rows_loop accept start_idx df merged merge_count
                  = Inr (n, df[j := (df ! j)\<lparr>cut_off := 1\<rparr>])
               \<and> j < length df \<and> j + 1 = start_idx + n \<and> merge_count \<le> n"
  using assms
proof (induction accept start_idx df merged merge_count rule: merge_rows_loop.induct)
  case (1 accept start_idx df merged merge_count)
  show ?case
  proof (cases "merge_count < MAX_MERGE_COUNT \<and> start_idx + merge_count < length df")
    case True
    let ?m = "(fst merged + est_dur (df ! (start_idx + merge_count)),
               fst (snd merged) + tol_dur (df ! (start_idx + merge_count)),
               snd (snd merged) + duration (df ! (start_idx + merge_count)))"
    let ?flag = "calc_if_too_fast accept (fst ?m) (fst (snd ?m)) (snd (snd ?m))
                   (tolerance (df ! (start_idx + merge_count)))"
    show ?thesis
    proof (cases "?flag \<le> 0 \<or> merge_count = 2")
      case stop: True
      have "merge_rows_loop accept start_idx df merged merge_count
              = Inr (merge_count + 1,
                     df[start_idx + merge_count := (df ! (start_idx + merge_count))\<lparr>cut_off := 1\<rparr>])"
        using True stop by (subst merge_rows_loop.simps) (simp add: Let_def)
      then show ?thesis
        using True by (intro exI [of _ "merge_count + 1"] exI [of _ "start_idx + merge_count"]) simp
    next
      case go: False
      have eq: "merge_rows_loop accept start_idx df merged merge_count
              = merge_rows_loop accept start_idx df ?m (merge_count + 1)"
        using True go by (subst merge_rows_loop.simps) (simp add: Let_def)
      have "\<exists>n j. merge_rows_loop accept start_idx df ?m (merge_count + 1)
                  = Inr (n, df[j := (df ! j)\<lparr>cut_off := 1\<rparr>])
               \<and> j < length df \<and> j + 1 = start_idx + n \<and> merge_count + 1 \<le> n"
        using True by (intro "1.IH" [OF True refl refl refl go]) simp_all
      then show ?thesis
        unfolding eq by (metis Suc_eq_plus1 Suc_leD)
    qed
  next
    case False
    have "merge_rows_loop accept start_idx df merged merge_count
            = Inr (merge_count,
                   df[start_idx + merge_count - 1 := (df ! (start_idx + merge_count - 1))\<lparr>cut_off := 1\<rparr>])"
      using False "1.prems" by (subst merge_rows_loop.simps) auto
    then show ?thesis
      using "1.prems"
      by (intro exI [of _ merge_count] exI [of _ "start_idx + merge_count - 1"]) simp
  qed
qed

lemma merge_rows_spec:
  assumes "start_idx < length df"
  shows "\<exists>n j. merge_rows accept df start_idx 1 = Inr (n, df[j := (df ! j)\<lparr>cut_off := 1\<rparr>])
               \<and> j < length df \<and> j + 1 = start_idx + n \<and> 1 \<le> n"
  using assms merge_rows_loop_spec [of 1 start_idx df accept]
  by (simp add: merge_rows_def)

text \<open>One step of the loop that marks row \<open>j\<close> and goes on at \<open>j + 1\<close>.\<close>

lemma cutoff_step:
  assumes j: "j < length df"
      and d: "df' = df[j := (df ! j)\<lparr>cut_off := 1\<rparr>]"
      and ih: "\<exists>out. cutoff_loop accept df' (j + 1) = Inr out
                 \<and> marks_kept df' out
                 \<and> (j + 1 \<le> length df' \<and> df' \<noteq> []
                      \<and> (0 < j + 1 \<longrightarrow> cut_off (df' ! (j + 1 - 1)) = 1)
                    \<longrightarrow> cut_off (last out) = 1)"
  shows "\<exists>out. cutoff_loop accept df' (j + 1) = Inr out
           \<and> marks_kept df out \<and> cut_off (last out) = 1"
proof -
  have l: "length df' = length df"
    by (simp add: d)
  have m: "cut_off (df' ! j) = 1"
    using j by (simp add: d)
  have ne: "df' \<noteq> []"
    using j l by auto
  have pre: "j + 1 \<le> length df' \<and> df' \<noteq> [] \<and> (0 < j + 1 \<longrightarrow> cut_off (df' ! (j + 1 - 1)) = 1)"
    using j l m ne by simp
  from ih obtain out where
    res: "cutoff_loop accept df' (j + 1) = Inr out"
    and mk: "marks_kept df' out"
    and la: "j + 1 \<le> length df' \<and> df' \<noteq> [] \<and> (0 < j + 1 \<longrightarrow> cut_off (df' ! (j + 1 - 1)) = 1)
             \<longrightarrow> cut_off (last out) = 1"
    by (elim exE conjE)
  have "cut_off (last out) = 1"
    using la pre by (rule mp)
  moreover have "marks_kept df out"
    using marks_kept_mark [OF j] mk unfolding d by (rule marks_kept_trans)
  ultimately show ?thesis
    using res by (intro exI [of _ out] conjI)
qed


lemma cutoff_loop_total:
  "\<exists>out. cutoff_loop accept df idx = Inr out
     \<and> marks_kept df out
     \<and> (idx \<le> length df \<and> df \<noteq> [] \<and> (0 < idx \<longrightarrow> cut_off (df ! (idx - 1)) = 1)
          \<longrightarrow> cut_off (last out) = 1)"
proof (induction accept df idx rule: cutoff_loop.induct)
  case (1 accept df idx)
  show ?case
  proof (cases "idx < length df")
    case False
    then have eq: "cutoff_loop accept df idx = Inr df"
      by (subst cutoff_loop.simps) simp
    have "cut_off (last df) = 1"
      if "idx \<le> length df \<and> df \<noteq> [] \<and> (0 < idx \<longrightarrow> cut_off (df ! (idx - 1)) = 1)"
      using that False by (auto simp: last_conv_nth)
    then show ?thesis
      unfolding eq using marks_kept_refl [of df] by blast
  next
    case lt: True
    show ?thesis
    proof (cases "cut_off (df ! idx) = 1")
      case marked: True
      have eq: "cutoff_loop accept df idx = cutoff_loop accept df (idx + 1)"
        using lt marked by (subst cutoff_loop.simps) simp
      have pre: "idx + 1 \<le> length df \<and> df \<noteq> [] \<and> (0 < idx + 1 \<longrightarrow> cut_off (df ! (idx + 1 - 1)) = 1)"
        using lt marked by auto
      from "1.IH"(1) [OF lt marked] obtain out where
        res: "cutoff_loop accept df (idx + 1) = Inr out" and mk: "marks_kept df out"
        and la: "idx + 1 \<le> length df \<and> df \<noteq> [] \<and> (0 < idx + 1 \<longrightarrow> cut_off (df ! (idx + 1 - 1)) = 1)
                 \<longrightarrow> cut_off (last out) = 1"
        by (elim exE conjE)
      have "cut_off (last out) = 1"
        using la pre by (rule mp)
      with res mk show ?thesis
        unfolding eq by blast
    next
      case unmarked: False
      show ?thesis
      proof (cases "idx + 1 \<ge> length df")
        case lastrow: True
        define df' where "df' = df[idx := (df ! idx)\<lparr>cut_off := 1\<rparr>]"
        have eq: "cutoff_loop accept df idx = Inr df'"
          using lt unmarked lastrow unfolding df'_def by (subst cutoff_loop.simps) simp
        have l': "length df' = length df"
          by (simp add: df'_def)
        have "idx = length df' - 1"
          using lt lastrow l' by simp
        moreover have "df' \<noteq> []"
          using lt l' by auto
        ultimately have "last df' = df' ! idx"
          by (simp add: last_conv_nth)
        then have "cut_off (last df') = 1"
          using lt by (simp add: df'_def)
        moreover have "marks_kept df df'"
          unfolding df'_def using lt by (rule marks_kept_mark)
        ultimately show ?thesis
          unfolding eq by blast
      next
        case more: False
        show ?thesis
        proof (cases "if_too_fast (df ! idx) \<le> 0 \<and> if_too_fast (df ! (idx + 1)) \<le> 0")
          case slow: True
          define df' where "df' = df[idx := (df ! idx)\<lparr>cut_off := 1\<rparr>]"
          have eq: "cutoff_loop accept df idx = cutoff_loop accept df' (idx + 1)"
            using lt unmarked more slow unfolding df'_def by (subst cutoff_loop.simps) simp
          from slow have s1: "if_too_fast (df ! idx) \<le> 0" and s2: "if_too_fast (df ! (idx + 1)) \<le> 0"
            by simp_all
          from cutoff_step [OF lt df'_def "1.IH"(2) [OF lt unmarked more s1 s2, folded df'_def]]
          show ?thesis
            unfolding eq by blast
        next
          case fast: False
          obtain n j where mr: "merge_rows accept df idx 1 = Inr (n, df[j := (df ! j)\<lparr>cut_off := 1\<rparr>])"
            and j: "j < length df" and jn: "j + 1 = idx + n" and n: "1 \<le> n"
            using merge_rows_spec [OF lt] by blast
          define df' where "df' = df[j := (df ! j)\<lparr>cut_off := 1\<rparr>]"
          have mr': "merge_rows accept df idx 1 = Inr (n, df')"
            using mr by (simp only: df'_def)
          have mrS: "merge_rows accept df idx (Suc 0) = Inr (n, df')"
            using mr' by simp
          have jS: "idx + n = Suc j"
            using jn by simp
          have eq: "cutoff_loop accept df idx = cutoff_loop accept df' (j + 1)"
            using lt unmarked more fast by (subst cutoff_loop.simps) (auto simp: mrS jS)
          have ih: "\<exists>out. cutoff_loop accept df' (idx + n) = Inr out
                 \<and> marks_kept df' out
                 \<and> (idx + n \<le> length df' \<and> df' \<noteq> []
                      \<and> (0 < idx + n \<longrightarrow> cut_off (df' ! (idx + n - 1)) = 1)
                    \<longrightarrow> cut_off (last out) = 1)"
          proof (cases "if_too_fast (df ! idx) \<le> 0")
            case True
            with fast have nf: "\<not> if_too_fast (df ! (idx + 1)) \<le> 0" by simp
            from "1.IH"(3) [OF lt unmarked more True nf mr' refl] show ?thesis .
          next
            case False
            from "1.IH"(4) [OF lt unmarked more False mr' refl] show ?thesis .
          qed
          from cutoff_step [OF j df'_def ih [folded jn]]
          show ?thesis
            unfolding eq by blast
        qed
      qed
    qed
  qed
qed


lemma chunks_of_spec:
  assumes "\<forall>r \<in> set cur. cut_off r \<noteq> 1" "chunks_of cur rows = (cs, rest)"
  shows "concat cs @ rest = cur @ rows
       \<and> (\<forall>c \<in> set cs. c \<noteq> [] \<and> cut_off (last c) = 1 \<and> (\<forall>r \<in> set (butlast c). cut_off r \<noteq> 1))
       \<and> (\<forall>r \<in> set rest. cut_off r \<noteq> 1)"
  using assms
proof (induction rows arbitrary: cur cs rest)
  case Nil
  then show ?case by simp
next
  case (Cons r rows)
  show ?case
  proof (cases "cut_off r = 1")
    case True
    obtain cs' rest' where rec: "chunks_of [] rows = (cs', rest')"
      by (cases "chunks_of [] rows")
    with True Cons.prems(2) have cs: "cs = (cur @ [r]) # cs'" and rest: "rest = rest'"
      by simp_all
    have ih: "concat cs' @ rest' = [] @ rows
       \<and> (\<forall>c \<in> set cs'. c \<noteq> [] \<and> cut_off (last c) = 1 \<and> (\<forall>r \<in> set (butlast c). cut_off r \<noteq> 1))
       \<and> (\<forall>r \<in> set rest'. cut_off r \<noteq> 1)"
      by (rule Cons.IH [OF _ rec]) simp
    show ?thesis
      using ih True Cons.prems(1) by (simp add: cs rest)
  next
    case False
    with Cons.prems(2) have rec: "chunks_of (cur @ [r]) rows = (cs, rest)"
      by simp
    have "\<forall>x \<in> set (cur @ [r]). cut_off x \<noteq> 1"
      using False Cons.prems(1) by simp
    from Cons.IH [OF this rec] show ?thesis
      by simp
  qed
qed

lemma chunks_of_complete:
  assumes ne: "rows \<noteq> []" and la: "cut_off (last rows) = 1"
  shows "\<exists>cs. chunks_of [] rows = (cs, []) \<and> concat cs = rows
           \<and> (\<forall>c \<in> set cs. c \<noteq> [] \<and> cut_off (last c) = 1 \<and> (\<forall>r \<in> set (butlast c). cut_off r \<noteq> 1))"
proof -
  obtain cs rest where c: "chunks_of [] rows = (cs, rest)"
    by (cases "chunks_of [] rows")
  have s: "concat cs @ rest = [] @ rows
       \<and> (\<forall>c \<in> set cs. c \<noteq> [] \<and> cut_off (last c) = 1 \<and> (\<forall>r \<in> set (butlast c). cut_off r \<noteq> 1))
       \<and> (\<forall>r \<in> set rest. cut_off r \<noteq> 1)"
    by (rule chunks_of_spec [OF _ c]) simp
  have "rest = []"
  proof (rule ccontr)
    assume r: "rest \<noteq> []"
    then have "last rows = last rest"
      using s by (metis append_Nil last_appendR)
    moreover have "last rest \<in> set rest"
      using r by simp
    ultimately show False
      using s la by metis
  qed
  with s c show ?thesis
    by simp
qed

lemma process_cutoffs_total:
  "\<exists>out. process_cutoffs TOLERANCE accept df = Inr out
     \<and> map unmark out = map unmark df
     \<and> (\<forall>i < length df. gap (df ! i) \<ge> TOLERANCE \<longrightarrow> cut_off (out ! i) = 1)
     \<and> (df \<noteq> [] \<longrightarrow> cut_off (last out) = 1)"
proof -
  define df2 where "df2 = map (\<lambda>r. if gap r \<ge> TOLERANCE then r\<lparr>cut_off := 1\<rparr> else r)
                            (map (\<lambda>r. r\<lparr>cut_off := 0\<rparr>) df)"
  have pc: "process_cutoffs TOLERANCE accept df = cutoff_loop accept df2 0"
    by (simp add: process_cutoffs_def df2_def)
  have l2: "length df2 = length df"
    by (simp add: df2_def)
  have u2: "map unmark df2 = map unmark df"
    by (simp add: df2_def unmark_def)
  have m2: "cut_off (df2 ! i) = 1" if "i < length df" "gap (df ! i) \<ge> TOLERANCE" for i
    using that by (simp add: df2_def)
  from cutoff_loop_total [of accept df2 0] obtain out where
    res: "cutoff_loop accept df2 0 = Inr out" and mk: "marks_kept df2 out"
    and la: "0 \<le> length df2 \<and> df2 \<noteq> [] \<and> (0 < (0::nat) \<longrightarrow> cut_off (df2 ! (0 - 1)) = 1)
             \<longrightarrow> cut_off (last out) = 1"
    by (elim exE conjE)
  have "map unmark out = map unmark df"
    using mk u2 by (simp add: marks_kept_def)
  moreover have "cut_off (out ! i) = 1" if "i < length df" "gap (df ! i) \<ge> TOLERANCE" for i
    using mk m2 [OF that] that(1) l2 by (simp add: marks_kept_def)
  moreover have "cut_off (last out) = 1" if "df \<noteq> []"
    using la that l2 by auto
  ultimately show ?thesis
    unfolding pc res by blast
qed

text \<open>
  C9. \<open>process_cutoffs\<close> returns on every table, and every line whose gap is at least the
  configured tolerance is marked in the result (the lines themselves are unchanged but for
  the marks), whatever its speed flag. No step takes a mark away: from whatever state of
  the table and position the loop goes on, every line marked then is marked at the end.
\<close>

theorem process_cutoffs_gap_marks:
  "(\<exists>out. process_cutoffs TOLERANCE accept df = Inr out
      \<and> length out = length df
      \<and> (\<forall>i < length df. gap (out ! i) = gap (df ! i) \<and> if_too_fast (out ! i) = if_too_fast (df ! i)
            \<and> (gap (df ! i) \<ge> TOLERANCE \<longrightarrow> cut_off (out ! i) = 1)))
   \<and> (\<exists>out'. cutoff_loop accept st idx = Inr out'
      \<and> length out' = length st
      \<and> (\<forall>i < length st. cut_off (st ! i) = 1 \<longrightarrow> cut_off (out' ! i) = 1))"
proof
  from process_cutoffs_total [of TOLERANCE accept df] obtain out where
    res: "process_cutoffs TOLERANCE accept df = Inr out"
    and u: "map unmark out = map unmark df"
    and g: "\<forall>i < length df. gap (df ! i) \<ge> TOLERANCE \<longrightarrow> cut_off (out ! i) = 1"
    by (elim exE conjE)
  have len: "length out = length df"
    using u by (rule map_eq_imp_length_eq)
  have "gap (out ! i) = gap (df ! i) \<and> if_too_fast (out ! i) = if_too_fast (df ! i)"
    if i: "i < length df" for i
  proof -
    have "unmark (out ! i) = unmark (df ! i)"
      using arg_cong [OF u, of "\<lambda>xs. xs ! i"] i len by simp
    then have "gap (unmark (out ! i)) = gap (unmark (df ! i))"
      and "if_too_fast (unmark (out ! i)) = if_too_fast (unmark (df ! i))"
      by simp_all
    then show ?thesis
      by (simp add: unmark_def)
  qed
  with res len g
  show "\<exists>out. process_cutoffs TOLERANCE accept df = Inr out
      \<and> length out = length df
      \<and> (\<forall>i < length df. gap (out ! i) = gap (df ! i) \<and> if_too_fast (out ! i) = if_too_fast (df ! i)
            \<and> (gap (df ! i) \<ge> TOLERANCE \<longrightarrow> cut_off (out ! i) = 1))"
    by blast
next
  from cutoff_loop_total [of accept st idx] obtain out' where
    res: "cutoff_loop accept st idx = Inr out'" and mk: "marks_kept st out'"
    by (elim exE conjE)
  show "\<exists>out'. cutoff_loop accept st idx = Inr out'
      \<and> length out' = length st
      \<and> (\<forall>i < length st. cut_off (st ! i) = 1 \<longrightarrow> cut_off (out' ! i) = 1)"
    using res mk marks_kept_length [OF mk] unfolding marks_kept_def by blast
qed

theorem process_cutoffs_gap_marks_witness:
  "(case process_cutoffs 0.5 1.2 example_table of
      Inl _ \<Rightarrow> False
    | Inr out \<Rightarrow> length out = 5 \<and> cut_off (out ! 0) = 1 \<and> cut_off (out ! 4) = 1
                 \<and> if_too_fast (out ! 0) = 2)
   \<and> map_sum id (map cut_off) (process_cutoffs 0.5 1.2 example_table) = Inr [1, 0, 0, 1, 1]"
proof
  have len5: "length example_table = 5"
    by (simp add: example_table_def)
  from process_cutoffs_gap_marks [of "0.5" "1.2" example_table "[]" 0, THEN conjunct1]
  obtain out where res: "process_cutoffs 0.5 1.2 example_table = Inr out"
    and len: "length out = length example_table"
    and all: "\<forall>i < length example_table.
                gap (out ! i) = gap (example_table ! i)
                \<and> if_too_fast (out ! i) = if_too_fast (example_table ! i)
                \<and> (gap (example_table ! i) \<ge> 0.5 \<longrightarrow> cut_off (out ! i) = 1)"
    by (elim exE conjE)
  have "cut_off (out ! 0) = 1" "if_too_fast (out ! 0) = 2"
    using all [rule_format, of 0] by (simp_all add: example_table_def example_analyzed_def)
  moreover have "cut_off (out ! 4) = 1"
    using all [rule_format, of 4] by (simp add: example_table_def example_analyzed_def)
  ultimately show "case process_cutoffs 0.5 1.2 example_table of
      Inl _ \<Rightarrow> False
    | Inr out \<Rightarrow> length out = 5 \<and> cut_off (out ! 0) = 1 \<and> cut_off (out ! 4) = 1
                 \<and> if_too_fast (out ! 0) = 2"
    unfolding res using len len5 by simp
next
  show "map_sum id (map cut_off) (process_cutoffs 0.5 1.2 example_table) = Inr [1, 0, 0, 1, 1]"
    by code_simp
qed

text \<open>
  C4. On every non-empty table \<open>process_cutoffs\<close> returns the same lines with marks such
  that the last line is marked, and cutting the result after every marked line leaves no
  line over: the chunks, put together in order, are the whole table, every chunk is
  non-empty, its last line is marked and no other line of it is.
\<close>

theorem process_cutoffs_chunks:
  assumes "df \<noteq> []"
  shows "\<exists>out chunks. process_cutoffs TOLERANCE accept df = Inr out
           \<and> map (\<lambda>r. r\<lparr>cut_off := 0\<rparr>) out = map (\<lambda>r. r\<lparr>cut_off := 0\<rparr>) df
           \<and> cut_off (last out) = 1
           \<and> chunks_of [] out = (chunks, [])
           \<and> concat chunks = out
           \<and> (\<forall>c \<in> set chunks. c \<noteq> [] \<and> cut_off (last c) = 1
                  \<and> (\<forall>r \<in> set (butlast c). cut_off r \<noteq> 1))"
proof -
  from process_cutoffs_total [of TOLERANCE accept df] assms obtain out where
    res: "process_cutoffs TOLERANCE accept df = Inr out"
    and u: "map unmark out = map unmark df"
    and la: "cut_off (last out) = 1"
    by blast
  have "length out = length df"
    using u by (rule map_eq_imp_length_eq)
  with assms have ne: "out \<noteq> []"
    by auto
  have u': "map (\<lambda>r. r\<lparr>cut_off := 0\<rparr>) out = map (\<lambda>r. r\<lparr>cut_off := 0\<rparr>) df"
    using u unfolding unmark_def [abs_def] .
  from chunks_of_complete [OF ne la] res u' la show ?thesis
    by blast
qed


theorem process_cutoffs_chunks_witness:
  "(case process_cutoffs 0.5 1.2 example_table of
      Inl _ \<Rightarrow> False
    | Inr out \<Rightarrow> cut_off (last out) = 1 \<and> snd (chunks_of [] out) = []
                 \<and> concat (fst (chunks_of [] out)) = out)
   \<and> map_sum id (\<lambda>out. map (map number) (fst (chunks_of [] out)))
        (process_cutoffs 0.5 1.2 example_table) = Inr [[1], [2, 3, 4], [5]]"
proof
  have ne: "example_table \<noteq> []"
    by (simp add: example_table_def)
  from process_cutoffs_chunks [OF ne, of "0.5" "1.2"]
  obtain out chunks where res: "process_cutoffs 0.5 1.2 example_table = Inr out"
    and la: "cut_off (last out) = 1"
    and ch: "chunks_of [] out = (chunks, [])"
    and co: "concat chunks = out"
    by (elim exE conjE)
  show "case process_cutoffs 0.5 1.2 example_table of
      Inl _ \<Rightarrow> False
    | Inr out \<Rightarrow> cut_off (last out) = 1 \<and> snd (chunks_of [] out) = []
                 \<and> concat (fst (chunks_of [] out)) = out"
    unfolding res using la co by (simp add: ch)
next
  show "map_sum id (\<lambda>out. map (map number) (fst (chunks_of [] out)))
        (process_cutoffs 0.5 1.2 example_table) = Inr [[1], [2, 3, 4], [5]]"
    by code_simp
qed

section \<open>Properties of the synthesis dispatcher\<close>

lemma process_row_real_dur: "process_row (r\<lparr>real_dur := x\<rparr>) = process_row r"
  by (simp add: process_row_def split: sum.splits)

lemma tts_lines_error: "tts_lines d cs = Inl e \<Longrightarrow> e = SynthesisError"
  by (induction cs arbitrary: d) (auto split: option.splits)

lemma process_row_error: "process_row r = Inl e \<Longrightarrow> e = SynthesisError"
  by (auto simp: process_row_def split: sum.splits dest: tts_lines_error)

lemma warmup_ok:
  assumes "\<forall>i \<in> set idxs. i < length df \<and> (\<exists>n d. process_row (df ! i) = Inr (n, d))"
  shows "warmup idxs df
           = Inr (map (\<lambda>i. if i \<in> set idxs
                             then (df ! i)\<lparr>real_dur := (case process_row (df ! i) of
                                                           Inl _ \<Rightarrow> -1 | Inr (_, d) \<Rightarrow> d)\<rparr>
                             else df ! i) [0..<length df])"
  using assms
proof (induction idxs arbitrary: df)
  case Nil
  show ?case by (simp add: map_nth)
next
  case (Cons i idxs)
  from Cons.prems obtain n d where pr: "process_row (df ! i) = Inr (n, d)" and i: "i < length df"
    by auto
  define df' where "df' = df[i := (df ! i)\<lparr>real_dur := d\<rparr>]"
  have same: "process_row (df' ! j) = process_row (df ! j)" for j
    by (cases "i < length df")
       (auto simp: df'_def nth_list_update process_row_real_dur list_update_beyond not_less)
  have l: "length df' = length df"
    by (simp add: df'_def)
  have pre: "\<forall>j \<in> set idxs. j < length df' \<and> (\<exists>n d. process_row (df' ! j) = Inr (n, d))"
    using Cons.prems by (simp add: same l)
  have "warmup (i # idxs) df = warmup idxs df'"
    by (simp add: pr df'_def)
  also have "\<dots> = Inr (map (\<lambda>j. if j \<in> set idxs
                             then (df' ! j)\<lparr>real_dur := (case process_row (df' ! j) of
                                                           Inl _ \<Rightarrow> -1 | Inr (_, d) \<Rightarrow> d)\<rparr>
                             else df' ! j) [0..<length df'])"
    by (rule Cons.IH [OF pre])
  also have "map (\<lambda>j. if j \<in> set idxs
                             then (df' ! j)\<lparr>real_dur := (case process_row (df' ! j) of
                                                           Inl _ \<Rightarrow> -1 | Inr (_, d) \<Rightarrow> d)\<rparr>
                             else df' ! j) [0..<length df']
             = map (\<lambda>j. if j \<in> set (i # idxs)
                             then (df ! j)\<lparr>real_dur := (case process_row (df ! j) of
                                                           Inl _ \<Rightarrow> -1 | Inr (_, d) \<Rightarrow> d)\<rparr>
                             else df ! j) [0..<length df]"
    unfolding same l using i
    by (intro nth_equalityI) (auto simp: df'_def nth_list_update pr)
  finally show ?case .
qed

lemma warmup_fail:
  assumes "\<exists>i \<in> set idxs. \<exists>e. process_row (df ! i) = Inl e"
  shows "warmup idxs df = Inl SynthesisError"
  using assms
proof (induction idxs arbitrary: df)
  case Nil
  then show ?case by simp
next
  case (Cons i idxs)
  show ?case
  proof (cases "process_row (df ! i)")
    case (Inl e)
    then show ?thesis
      using process_row_error [OF Inl] by simp
  next
    case (Inr p)
    obtain n d where p: "p = (n, d)" by (cases p)
    define df' where "df' = df[i := (df ! i)\<lparr>real_dur := d\<rparr>]"
    have same: "process_row (df' ! j) = process_row (df ! j)" for j
      by (cases "i < length df")
       (auto simp: df'_def nth_list_update process_row_real_dur list_update_beyond not_less)
    have "\<exists>j \<in> set idxs. \<exists>e. process_row (df' ! j) = Inl e"
      using Cons.prems Inr by (auto simp: same)
    from Cons.IH [OF this] show ?thesis
      by (simp add: Inr p df'_def)
  qed
qed

lemma collect_spec:
  assumes "\<forall>i \<in> set idxs. i < length df"
  shows "collect rows idxs df
           = map (\<lambda>i. if i \<in> set idxs
                        then (df ! i)\<lparr>real_dur := (case process_row (rows ! i) of
                                                      Inl _ \<Rightarrow> -1 | Inr (_, d) \<Rightarrow> d)\<rparr>
                        else df ! i) [0..<length df]"
  using assms
proof (induction idxs arbitrary: df)
  case Nil
  show ?case by (simp add: map_nth)
next
  case (Cons i idxs)
  define v where "v = (case process_row (rows ! i) of Inl _ \<Rightarrow> -1 | Inr (_, d) \<Rightarrow> d)"
  define df' where "df' = df[i := (df ! i)\<lparr>real_dur := v\<rparr>]"
  have l: "length df' = length df"
    by (simp add: df'_def)
  have pre: "\<forall>j \<in> set idxs. j < length df'"
    using Cons.prems by (simp add: l)
  have "collect rows (i # idxs) df = collect rows idxs df'"
    by (auto simp: df'_def v_def split: sum.splits)
  also have "\<dots> = map (\<lambda>j. if j \<in> set idxs
                        then (df' ! j)\<lparr>real_dur := (case process_row (rows ! j) of
                                                      Inl _ \<Rightarrow> -1 | Inr (_, d) \<Rightarrow> d)\<rparr>
                        else df' ! j) [0..<length df']"
    by (rule Cons.IH [OF pre])
  also have "\<dots> = map (\<lambda>j. if j \<in> set (i # idxs)
                        then (df ! j)\<lparr>real_dur := (case process_row (rows ! j) of
                                                      Inl _ \<Rightarrow> -1 | Inr (_, d) \<Rightarrow> d)\<rparr>
                        else df ! j) [0..<length df]"
    unfolding l using Cons.prems
    by (intro nth_equalityI) (auto simp: df'_def nth_list_update v_def)
  finally show ?case .
qed

text \<open>
  C8 (amended). Let \<open>done\<close> be any order in which the pool completes the rows after the
  warm-up. If \<open>process_row\<close> succeeds for each of the first \<open>min(5, len)\<close> rows (the
  warm-up), the batch runs to completion whatever happens later: every row gets its
  measured duration, and a row whose synthesis fails gets \<open>real_dur = -1\<close>. If synthesis
  fails for a row of the warm-up, the exception is raised again and the batch is aborted.
\<close>

theorem generate_tts_audio_failures:
  assumes order: "set done = {min WARMUP_SIZE (length tasks_df)..<length tasks_df}"
  shows "((\<forall>i < min WARMUP_SIZE (length tasks_df). \<exists>n d. process_row (tasks_df ! i) = Inr (n, d)) \<longrightarrow>
            generate_tts_audio done tasks_df
              = Inr (map (\<lambda>r. r\<lparr>real_dur := (case process_row r of
                                                 Inl _ \<Rightarrow> -1 | Inr (_, d) \<Rightarrow> d)\<rparr>) tasks_df))
       \<and> ((\<exists>i < min WARMUP_SIZE (length tasks_df). \<exists>e. process_row (tasks_df ! i) = Inl e) \<longrightarrow>
            generate_tts_audio done tasks_df = Inl SynthesisError)"
proof (intro conjI impI)
  define n where "n = length tasks_df"
  define w where "w = min WARMUP_SIZE n"
  define df0 where "df0 = map (\<lambda>r. r\<lparr>real_dur := 0\<rparr>) tasks_df"
  have l0: "length df0 = n"
    by (simp add: df0_def n_def)
  have p0: "process_row (df0 ! i) = process_row (tasks_df ! i)" if "i < n" for i
    using that by (simp add: df0_def n_def process_row_real_dur)
  have gen: "generate_tts_audio done tasks_df
               = (case warmup [0..<w] df0 of
                    Inl e \<Rightarrow> Inl e
                  | Inr df1 \<Rightarrow> if length df1 > w then Inr (collect df1 done df1) else Inr df1)"
    by (simp add: generate_tts_audio_def Let_def df0_def w_def n_def cong: sum.case_cong)
  have wn: "w \<le> n"
    by (simp add: w_def)
  {
    assume ok: "\<forall>i < min WARMUP_SIZE (length tasks_df). \<exists>n d. process_row (tasks_df ! i) = Inr (n, d)"
    have pre: "\<forall>i \<in> set [0..<w]. i < length df0 \<and> (\<exists>n d. process_row (df0 ! i) = Inr (n, d))"
      using ok wn by (auto simp: l0 p0 w_def n_def)
    define df1 where "df1 = map (\<lambda>i. if i \<in> set [0..<w]
                             then (df0 ! i)\<lparr>real_dur := (case process_row (df0 ! i) of
                                                           Inl _ \<Rightarrow> -1 | Inr (_, d) \<Rightarrow> d)\<rparr>
                             else df0 ! i) [0..<length df0]"
    have w1: "warmup [0..<w] df0 = Inr df1"
      unfolding df1_def by (rule warmup_ok [OF pre])
    have l1: "length df1 = n"
      by (simp add: df1_def l0)
    have p1: "process_row (df1 ! i) = process_row (tasks_df ! i)" if "i < n" for i
      using that by (simp add: df1_def l0 p0 process_row_real_dur)
    have dn: "\<forall>i \<in> set done. i < length df1"
      using order by (simp add: l1 n_def)
    have c: "collect df1 done df1
           = map (\<lambda>i. if i \<in> set done
                        then (df1 ! i)\<lparr>real_dur := (case process_row (df1 ! i) of
                                                      Inl _ \<Rightarrow> -1 | Inr (_, d) \<Rightarrow> d)\<rparr>
                        else df1 ! i) [0..<length df1]"
      by (rule collect_spec [OF dn])
    have target: "map (\<lambda>r. r\<lparr>real_dur := (case process_row r of
                                                 Inl _ \<Rightarrow> -1 | Inr (_, d) \<Rightarrow> d)\<rparr>) tasks_df
                  = (if n > w then collect df1 done df1 else df1)"
    proof (intro nth_equalityI)
      show "length (map (\<lambda>r. r\<lparr>real_dur := (case process_row r of
                                                 Inl _ \<Rightarrow> -1 | Inr (_, d) \<Rightarrow> d)\<rparr>) tasks_df)
              = length (if n > w then collect df1 done df1 else df1)"
        by (simp add: c l1 n_def)
    next
      fix i
      assume "i < length (map (\<lambda>r. r\<lparr>real_dur := (case process_row r of
                                                 Inl _ \<Rightarrow> -1 | Inr (_, d) \<Rightarrow> d)\<rparr>) tasks_df)"
      then have i: "i < n"
        by (simp add: n_def)
      have d1: "df1 ! i = (if i < w
                           then (tasks_df ! i)\<lparr>real_dur := (case process_row (tasks_df ! i) of
                                                      Inl _ \<Rightarrow> -1 | Inr (_, d) \<Rightarrow> d)\<rparr>
                           else (tasks_df ! i)\<lparr>real_dur := 0\<rparr>)"
        using i by (simp add: df1_def l0 p0) (simp add: df0_def n_def)
      have mem: "i \<in> set done \<longleftrightarrow> w \<le> i"
        using order i by (simp add: w_def n_def)
      show "map (\<lambda>r. r\<lparr>real_dur := (case process_row r of
                                                 Inl _ \<Rightarrow> -1 | Inr (_, d) \<Rightarrow> d)\<rparr>) tasks_df ! i
              = (if n > w then collect df1 done df1 else df1) ! i"
        using i wn by (simp add: c l1 mem p1 d1 n_def [symmetric] process_row_real_dur)
    qed
    show "generate_tts_audio done tasks_df
              = Inr (map (\<lambda>r. r\<lparr>real_dur := (case process_row r of
                                                 Inl _ \<Rightarrow> -1 | Inr (_, d) \<Rightarrow> d)\<rparr>) tasks_df)"
      unfolding gen w1 target by (simp add: l1)
  }
  {
    assume bad: "\<exists>i < min WARMUP_SIZE (length tasks_df). \<exists>e. process_row (tasks_df ! i) = Inl e"
    then have "\<exists>i \<in> set [0..<w]. \<exists>e. process_row (df0 ! i) = Inl e"
      using wn p0 by (auto simp: w_def n_def)
    from warmup_fail [OF this]
    show "generate_tts_audio done tasks_df = Inl SynthesisError"
      unfolding gen by simp
  }
qed


theorem generate_tts_audio_failures_witness:
  "map_sum id (map real_dur) (generate_tts_audio [6, 5] example_batch)
     = Inr [1, 1, 1, 1, 1, -1, 2.5]
   \<and> generate_tts_audio [6, 5] (rev example_batch) = Inl SynthesisError"
proof
  have pr: "map process_row example_batch
              = [Inr (1, 1), Inr (2, 1), Inr (3, 1), Inr (4, 1), Inr (5, 1), Inl SynthesisError,
                 Inr (7, 2.5)]"
    by (simp add: example_batch_def example_row_def example_clip_def process_row_def)
  have len: "length example_batch = 7"
    by (simp add: example_batch_def)
  have order: "set [6, 5] = {min WARMUP_SIZE (length example_batch)..<length example_batch}"
    by (auto simp: len WARMUP_SIZE_def)
  have nth: "process_row (example_batch ! i) = map process_row example_batch ! i" if "i < 7" for i
    using that len by simp
  have ok: "\<forall>i < min WARMUP_SIZE (length example_batch).
              \<exists>n d. process_row (example_batch ! i) = Inr (n, d)"
  proof (intro allI impI)
    fix i
    assume "i < min WARMUP_SIZE (length example_batch)"
    then have "i < 5"
      by (simp add: len WARMUP_SIZE_def)
    then have "i = 0 \<or> i = 1 \<or> i = 2 \<or> i = 3 \<or> i = 4"
      by arith
    then show "\<exists>n d. process_row (example_batch ! i) = Inr (n, d)"
      by (elim disjE) (simp_all add: nth pr)
  qed
  have "generate_tts_audio [6, 5] example_batch
          = Inr (map (\<lambda>r. r\<lparr>real_dur := (case process_row r of
                                                 Inl _ \<Rightarrow> -1 | Inr (_, d) \<Rightarrow> d)\<rparr>) example_batch)"
    using generate_tts_audio_failures [OF order, THEN conjunct1] ok by (rule mp)
  then have "map_sum id (map real_dur) (generate_tts_audio [6, 5] example_batch)
               = Inr (map (\<lambda>x. case x of Inl _ \<Rightarrow> -1 | Inr (_, d) \<Rightarrow> d)
                        (map process_row example_batch))"
    by (simp add: comp_def)
  then show "map_sum id (map real_dur) (generate_tts_audio [6, 5] example_batch)
     = Inr [1, 1, 1, 1, 1, -1, 2.5]"
    unfolding pr by simp
next
  have len: "length example_batch = 7"
    by (simp add: example_batch_def)
  have order: "set [6, 5] = {min WARMUP_SIZE (length (rev example_batch))..<length (rev example_batch)}"
    by (auto simp: len WARMUP_SIZE_def)
  have "process_row (rev example_batch ! 1) = Inl SynthesisError"
    by (simp add: example_batch_def example_row_def example_clip_def process_row_def)
  moreover have "(1::nat) < min WARMUP_SIZE (length (rev example_batch))"
    by (simp add: len WARMUP_SIZE_def)
  ultimately have "\<exists>i < min WARMUP_SIZE (length (rev example_batch)).
                     \<exists>e. process_row (rev example_batch ! i) = Inl e"
    by blast
  with generate_tts_audio_failures [OF order, THEN conjunct2]
  show "generate_tts_audio [6, 5] (rev example_batch) = Inl SynthesisError"
    by (rule mp)
qed

text \<open>
  A batch of one task whose synthesis fails: the failure is in the warm-up, the batch is
  aborted and no row is marked.
\<close>

theorem generate_tts_audio_abort_counterexample:
  "generate_tts_audio [] [example_row 1 [] [] 0 0 0 0 1 [(example_clip 1 1)\<lparr>clip_tts := None\<rparr>]]
     = Inl SynthesisError"
  by (simp add: generate_tts_audio_def WARMUP_SIZE_def example_row_def example_clip_def
                process_row_def upt_rec)

section \<open>Properties of the TimestampAligner\<close>

declare find_match.simps [simp del]

lemma find_match_Some:
  "find_match full s pos = Some p \<Longrightarrow>
     pos \<le> p \<and> p + length s \<le> length full \<and> take (length s) (drop p full) = s
     \<and> (\<forall>q. pos \<le> q \<and> q < p \<longrightarrow> take (length s) (drop q full) \<noteq> s)"
proof (induction full s pos rule: find_match.induct)
  case (1 full s pos)
  show ?case
  proof (cases "pos + length s \<le> length full")
    case False
    with "1.prems" show ?thesis
      by (subst (asm) find_match.simps) simp
  next
    case fits: True
    show ?thesis
    proof (cases "take (length s) (drop pos full) = s")
      case True
      with fits "1.prems" have "p = pos"
        by (subst (asm) find_match.simps) simp
      with fits True show ?thesis
        by auto
    next
      case False
      with fits "1.prems" have "find_match full s (pos + 1) = Some p"
        by (subst (asm) find_match.simps) simp
      from "1.IH" [OF fits False this]
      have ih: "pos + 1 \<le> p" "p + length s \<le> length full" "take (length s) (drop p full) = s"
        "\<forall>q. pos + 1 \<le> q \<and> q < p \<longrightarrow> take (length s) (drop q full) \<noteq> s"
        by simp_all
      have "take (length s) (drop q full) \<noteq> s" if "pos \<le> q" "q < p" for q
      proof (cases "q = pos")
        case True
        with False show ?thesis by simp
      next
        case False
        with that ih(4) show ?thesis by simp
      qed
      with ih show ?thesis
        by simp
    qed
  qed
qed

lemma fold_upd_index:
  "fold (\<lambda>pos m. m(pos \<mapsto> idx)) [a..<b] m pos
     = (if a \<le> pos \<and> pos < b then Some idx else m pos)"
proof (induction b)
  case 0
  show ?case by simp
next
  case (Suc b)
  show ?case
  proof (cases "a \<le> b")
    case True
    then show ?thesis
      using Suc by (auto simp: upt_Suc_append)
  next
    case False
    then show ?thesis
      by auto
  qed
qed

lemma build_index_spec:
  assumes "build_index U idx ws (full, m) = (full', m')"
  shows "full' = full @ concat (map (\<lambda>w. remove_punctuation U (w_text w)) ws)
       \<and> (\<forall>pos < length full. m' pos = m pos)
       \<and> (\<forall>k < length ws. \<forall>pos.
             length full + length (concat (map (\<lambda>w. remove_punctuation U (w_text w)) (take k ws))) \<le> pos
             \<and> pos < length full + length (concat (map (\<lambda>w. remove_punctuation U (w_text w)) (take (Suc k) ws)))
             \<longrightarrow> m' pos = Some (idx + k))"
  using assms
proof (induction ws arbitrary: idx full m)
  case Nil
  then show ?case by simp
next
  case (Cons w ws)
  define c where "c = remove_punctuation U (w_text w)"
  define m1 where "m1 = fold (\<lambda>pos m. m(pos \<mapsto> idx)) [length full..<length (full @ c)] m"
  have rec: "build_index U (idx + 1) ws (full @ c, m1) = (full', m')"
    using Cons.prems by (simp add: c_def m1_def Let_def)
  note ih = Cons.IH [OF rec]
  have m1: "m1 pos = (if length full \<le> pos \<and> pos < length full + length c then Some idx else m pos)" for pos
    by (simp add: m1_def fold_upd_index)
  have a: "full' = full @ concat (map (\<lambda>w. remove_punctuation U (w_text w)) (w # ws))"
    using ih by (simp add: c_def)
  have b: "m' pos = m pos" if "pos < length full" for pos
    using ih that by (simp add: m1)
  have d: "m' pos = Some (idx + k)"
    if k: "k < length (w # ws)"
      and lo: "length full + length (concat (map (\<lambda>w. remove_punctuation U (w_text w)) (take k (w # ws)))) \<le> pos"
      and hi: "pos < length full + length (concat (map (\<lambda>w. remove_punctuation U (w_text w)) (take (Suc k) (w # ws))))"
    for k pos
  proof (cases k)
    case 0
    with lo hi have "length full \<le> pos" "pos < length full + length c"
      by (simp_all add: c_def)
    then have "m1 pos = Some idx"
      by (simp add: m1)
    moreover have "m' pos = m1 pos"
      using ih \<open>pos < length full + length c\<close> by simp
    ultimately show ?thesis
      using 0 by simp
  next
    case (Suc j)
    with k have j: "j < length ws" by simp
    have "length (full @ c) + length (concat (map (\<lambda>w. remove_punctuation U (w_text w)) (take j ws))) \<le> pos"
      using lo Suc by (simp add: c_def)
    moreover have "pos < length (full @ c) + length (concat (map (\<lambda>w. remove_punctuation U (w_text w)) (take (Suc j) ws)))"
      using hi Suc by (simp add: c_def)
    ultimately have "m' pos = Some (idx + 1 + j)"
      using ih j by blast
    then show ?thesis
      using Suc by simp
  qed
  from a b d show ?case
    by blast
qed

text \<open>Every position of the concatenation lies in exactly one word.\<close>

lemma position_in_word:
  assumes "pos < length (concat (map f ws))"
  shows "\<exists>k < length ws. length (concat (map f (take k ws))) \<le> pos
           \<and> pos < length (concat (map f (take (Suc k) ws)))"
  using assms
proof (induction ws rule: rev_induct)
  case Nil
  then show ?case by simp
next
  case (snoc w ws)
  show ?case
  proof (cases "pos < length (concat (map f ws))")
    case True
    from snoc.IH [OF True] obtain k where "k < length ws"
      "length (concat (map f (take k ws))) \<le> pos" "pos < length (concat (map f (take (Suc k) ws)))"
      by blast
    then show ?thesis
      by (intro exI [of _ k]) simp
  next
    case False
    with snoc.prems show ?thesis
      by (intro exI [of _ "length ws"]) simp
  qed
qed


lemma align_loop_spec:
  assumes "align_loop U W full m c0 acc ss = Inr (c', out)"
  shows "\<exists>cur new. out = acc @ new \<and> length new = length ss \<and> length cur = length ss + 1
           \<and> cur ! 0 = c0
           \<and> (\<forall>i < length ss. align_sentence U W full m (cur ! i) (ss ! i) = Inr (cur ! (i + 1), new ! i))"
  using assms
proof (induction ss arbitrary: c0 acc)
  case Nil
  then show ?case
    by (intro exI [of _ "[c0]"] exI [of _ "[]"]) simp
next
  case (Cons s ss)
  from Cons.prems obtain c1 st where
    step: "align_sentence U W full m c0 s = Inr (c1, st)"
    and rest: "align_loop U W full m c1 (acc @ [st]) ss = Inr (c', out)"
    by (auto split: sum.splits)
  from Cons.IH [OF rest] obtain cur new where
    o: "out = (acc @ [st]) @ new" and ln: "length new = length ss"
    and lc: "length cur = length ss + 1" and c0: "cur ! 0 = c1"
    and all: "\<forall>i < length ss. align_sentence U W full m (cur ! i) (ss ! i) = Inr (cur ! (i + 1), new ! i)"
    by blast
  have "align_sentence U W full m ((c0 # cur) ! i) ((s # ss) ! i)
          = Inr ((c0 # cur) ! (i + 1), (st # new) ! i)" if "i < length (s # ss)" for i
  proof (cases i)
    case 0
    then show ?thesis
      using step c0 by simp
  next
    case (Suc j)
    then show ?thesis
      using that all by simp
  qed
  then show ?case
    using o ln lc by (intro exI [of _ "c0 # cur"] exI [of _ "st # new"]) simp
qed

lemma align_sentence_spec:
  assumes idx: "\<forall>pos < length full. \<exists>k < length W. m pos = Some k
                   \<and> word_offset U W k \<le> pos \<and> pos < word_offset U W (Suc k)"
      and step: "align_sentence U W full m c sentence = Inr (c', st)"
  shows "c \<le> c'
       \<and> (clean_sentence U sentence = [] \<longrightarrow> c' = c \<and> st = (0, 0))
       \<and> (clean_sentence U sentence \<noteq> [] \<longrightarrow>
            (\<exists>p a b. c \<le> p
               \<and> p + length (clean_sentence U sentence) \<le> length full
               \<and> take (length (clean_sentence U sentence)) (drop p full) = clean_sentence U sentence
               \<and> (\<forall>q. c \<le> q \<and> q < p \<longrightarrow>
                      take (length (clean_sentence U sentence)) (drop q full) \<noteq> clean_sentence U sentence)
               \<and> c' = p + length (clean_sentence U sentence)
               \<and> a < length W \<and> word_offset U W a \<le> p \<and> p < word_offset U W (Suc a)
               \<and> b < length W \<and> word_offset U W b \<le> p + length (clean_sentence U sentence) - 1
               \<and> p + length (clean_sentence U sentence) - 1 < word_offset U W (Suc b)
               \<and> st = (w_start (W ! a), w_end (W ! b))))"
proof (cases "clean_sentence U sentence = []")
  case True
  with step show ?thesis
    by (simp add: align_sentence_def clean_sentence_def)
next
  case False
  define s where "s = clean_sentence U sentence"
  have ne: "s \<noteq> []" using False by (simp add: s_def)
  from step False obtain p where fm: "find_match full s c = Some p"
    by (auto simp: align_sentence_def clean_sentence_def s_def Let_def split: option.splits)
  from find_match_Some [OF fm]
  have p: "c \<le> p" "p + length s \<le> length full" "take (length s) (drop p full) = s"
    "\<forall>q. c \<le> q \<and> q < p \<longrightarrow> take (length s) (drop q full) \<noteq> s"
    by simp_all
  have lpos: "0 < length s" using ne by simp
  have p1: "p < length full" and p2: "p + length s - 1 < length full"
    using p(2) lpos by linarith+
  from idx p1 obtain a where a: "a < length W" "m p = Some a"
    "word_offset U W a \<le> p" "p < word_offset U W (Suc a)"
    by blast
  from idx p2 obtain b where b: "b < length W" "m (p + length s - 1) = Some b"
    "word_offset U W b \<le> p + length s - 1" "p + length s - 1 < word_offset U W (Suc b)"
    by blast
  have res: "align_sentence U W full m c sentence
               = Inr (p + length s, (w_start (W ! a), w_end (W ! b)))"
    using False fm a(2) b(2)
    by (simp add: align_sentence_def clean_sentence_def [symmetric] s_def [symmetric] Let_def)
  with step have c': "c' = p + length s" and st: "st = (w_start (W ! a), w_end (W ! b))"
    by simp_all
  have "\<exists>p a b. c \<le> p
               \<and> p + length s \<le> length full
               \<and> take (length s) (drop p full) = s
               \<and> (\<forall>q. c \<le> q \<and> q < p \<longrightarrow> take (length s) (drop q full) \<noteq> s)
               \<and> c' = p + length s
               \<and> a < length W \<and> word_offset U W a \<le> p \<and> p < word_offset U W (Suc a)
               \<and> b < length W \<and> word_offset U W b \<le> p + length s - 1
               \<and> p + length s - 1 < word_offset U W (Suc b)
               \<and> st = (w_start (W ! a), w_end (W ! b))"
    using p a b c' st by blast
  moreover have "c \<le> c'"
    using p(1) c' by simp
  ultimately show ?thesis
    using False unfolding s_def by blast
qed

lemma index_spec:
  assumes "build_index U 0 W ([], Map.empty) = (full, m)"
  shows "full = full_text U W"
    and "\<forall>pos < length full. \<exists>k < length W. m pos = Some k
            \<and> word_offset U W k \<le> pos \<and> pos < word_offset U W (Suc k)"
proof -
  note bs = build_index_spec [OF assms]
  show f: "full = full_text U W"
    using bs by (simp add: full_text_def)
  show "\<forall>pos < length full. \<exists>k < length W. m pos = Some k
            \<and> word_offset U W k \<le> pos \<and> pos < word_offset U W (Suc k)"
  proof (intro allI impI)
    fix pos
    assume "pos < length full"
    then have "pos < length (concat (map (\<lambda>w. remove_punctuation U (w_text w)) W))"
      by (simp add: f full_text_def)
    from position_in_word [OF this] obtain k where k: "k < length W"
      "length (concat (map (\<lambda>w. remove_punctuation U (w_text w)) (take k W))) \<le> pos"
      "pos < length (concat (map (\<lambda>w. remove_punctuation U (w_text w)) (take (Suc k) W)))"
      by blast
    then have "m pos = Some (0 + k)"
      using bs by simp
    with k show "\<exists>k < length W. m pos = Some k
            \<and> word_offset U W k \<le> pos \<and> pos < word_offset U W (Suc k)"
      by (intro exI [of _ k]) (simp add: word_offset_def full_text_def)
  qed
qed


text \<open>
  C7 (amended). On every input the aligner accepts, there is one interval per sentence and
  the cursor, which starts at 0, never decreases from one sentence to the next. A sentence
  whose cleaned text is empty gets the interval \<open>(0.0, 0.0)\<close> and leaves the cursor where
  it is. Every other sentence is matched at the earliest position \<open>p\<close> at or after the
  cursor where its cleaned text is a slice of the cleaned word concatenation; its interval
  is the start time of the word that holds position \<open>p\<close> and the end time of the word
  that holds the last matched position, and the cursor moves to the end of the match. The
  interval list is a function of the input, so two runs on the same input agree.
\<close>

theorem get_sentence_timestamps_cursor:
  assumes run: "get_sentence_timestamps U df_words sentences = Inr stamps"
  shows "length stamps = length sentences
       \<and> (\<exists>cur. length cur = length sentences + 1 \<and> cur ! 0 = 0
            \<and> (\<forall>i < length sentences.
                  cur ! i \<le> cur ! (i + 1)
                \<and> (clean_sentence U (sentences ! i) = [] \<longrightarrow>
                      cur ! (i + 1) = cur ! i \<and> stamps ! i = (0, 0))
                \<and> (clean_sentence U (sentences ! i) \<noteq> [] \<longrightarrow>
                     (\<exists>p a b. cur ! i \<le> p
                        \<and> p + length (clean_sentence U (sentences ! i)) \<le> length (full_text U df_words)
                        \<and> take (length (clean_sentence U (sentences ! i))) (drop p (full_text U df_words))
                            = clean_sentence U (sentences ! i)
                        \<and> (\<forall>q. cur ! i \<le> q \<and> q < p \<longrightarrow>
                               take (length (clean_sentence U (sentences ! i))) (drop q (full_text U df_words))
                                 \<noteq> clean_sentence U (sentences ! i))
                        \<and> cur ! (i + 1) = p + length (clean_sentence U (sentences ! i))
                        \<and> a < length df_words \<and> word_offset U df_words a \<le> p
                        \<and> p < word_offset U df_words (Suc a)
                        \<and> b < length df_words
                        \<and> word_offset U df_words b \<le> p + length (clean_sentence U (sentences ! i)) - 1
                        \<and> p + length (clean_sentence U (sentences ! i)) - 1 < word_offset U df_words (Suc b)
                        \<and> stamps ! i = (w_start (df_words ! a), w_end (df_words ! b))))))"
proof -
  obtain full m where bi: "build_index U 0 df_words ([], Map.empty) = (full, m)"
    by (cases "build_index U 0 df_words ([], Map.empty)")
  from run bi obtain c' where loop: "align_loop U df_words full m 0 [] sentences = Inr (c', stamps)"
    by (auto simp: get_sentence_timestamps_def split: sum.splits)
  note f = index_spec(1) [OF bi] and idx = index_spec(2) [OF bi]
  from align_loop_spec [OF loop] obtain cur new where
    o: "stamps = [] @ new" and ln: "length new = length sentences"
    and lc: "length cur = length sentences + 1" and c0: "cur ! 0 = 0"
    and all: "\<forall>i < length sentences.
                align_sentence U df_words full m (cur ! i) (sentences ! i) = Inr (cur ! (i + 1), new ! i)"
    by blast
  have st: "stamps = new" using o by simp
  have "length stamps = length sentences"
    using ln st by simp
  moreover have "\<forall>i < length sentences.
                  cur ! i \<le> cur ! (i + 1)
                \<and> (clean_sentence U (sentences ! i) = [] \<longrightarrow>
                      cur ! (i + 1) = cur ! i \<and> stamps ! i = (0, 0))
                \<and> (clean_sentence U (sentences ! i) \<noteq> [] \<longrightarrow>
                     (\<exists>p a b. cur ! i \<le> p
                        \<and> p + length (clean_sentence U (sentences ! i)) \<le> length (full_text U df_words)
                        \<and> take (length (clean_sentence U (sentences ! i))) (drop p (full_text U df_words))
                            = clean_sentence U (sentences ! i)
                        \<and> (\<forall>q. cur ! i \<le> q \<and> q < p \<longrightarrow>
                               take (length (clean_sentence U (sentences ! i))) (drop q (full_text U df_words))
                                 \<noteq> clean_sentence U (sentences ! i))
                        \<and> cur ! (i + 1) = p + length (clean_sentence U (sentences ! i))
                        \<and> a < length df_words \<and> word_offset U df_words a \<le> p
                        \<and> p < word_offset U df_words (Suc a)
                        \<and> b < length df_words
                        \<and> word_offset U df_words b \<le> p + length (clean_sentence U (sentences ! i)) - 1
                        \<and> p + length (clean_sentence U (sentences ! i)) - 1 < word_offset U df_words (Suc b)
                        \<and> stamps ! i = (w_start (df_words ! a), w_end (df_words ! b))))"
  proof (intro allI impI)
    fix i
    assume "i < length sentences"
    with all have step: "align_sentence U df_words full m (cur ! i) (sentences ! i)
                           = Inr (cur ! (i + 1), stamps ! i)"
      by (simp add: st)
    from align_sentence_spec [OF idx step]
    show "cur ! i \<le> cur ! (i + 1)
                \<and> (clean_sentence U (sentences ! i) = [] \<longrightarrow>
                      cur ! (i + 1) = cur ! i \<and> stamps ! i = (0, 0))
                \<and> (clean_sentence U (sentences ! i) \<noteq> [] \<longrightarrow>
                     (\<exists>p a b. cur ! i \<le> p
                        \<and> p + length (clean_sentence U (sentences ! i)) \<le> length (full_text U df_words)
                        \<and> take (length (clean_sentence U (sentences ! i))) (drop p (full_text U df_words))
                            = clean_sentence U (sentences ! i)
                        \<and> (\<forall>q. cur ! i \<le> q \<and> q < p \<longrightarrow>
                               take (length (clean_sentence U (sentences ! i))) (drop q (full_text U df_words))
                                 \<noteq> clean_sentence U (sentences ! i))
                        \<and> cur ! (i + 1) = p + length (clean_sentence U (sentences ! i))
                        \<and> a < length df_words \<and> word_offset U df_words a \<le> p
                        \<and> p < word_offset U df_words (Suc a)
                        \<and> b < length df_words
                        \<and> word_offset U df_words b \<le> p + length (clean_sentence U (sentences ! i)) - 1
                        \<and> p + length (clean_sentence U (sentences ! i)) - 1 < word_offset U df_words (Suc b)
                        \<and> stamps ! i = (w_start (df_words ! a), w_end (df_words ! b))))"
      unfolding f .
  qed
  ultimately show ?thesis
    using lc c0 by blast
qed

theorem get_sentence_timestamps_cursor_witness:
  "get_sentence_timestamps ascii example_words example_sentences = Inr [(1, 3), (0, 0), (3.5, 4)]
   \<and> (\<exists>cur :: nat list. length cur = 4 \<and> cur ! 0 = 0 \<and> cur ! 0 \<le> cur ! 1 \<and> cur ! 1 = cur ! 2
          \<and> cur ! 2 \<le> cur ! 3)"
proof
  show run: "get_sentence_timestamps ascii example_words example_sentences
               = Inr [(1, 3), (0, 0), (3.5, 4)]"
    by code_simp
  have len: "length example_sentences = 3"
    by (simp add: example_sentences_def)
  have e1: "clean_sentence ascii (example_sentences ! 1) = []"
    by code_simp
  from get_sentence_timestamps_cursor [OF run, THEN conjunct2]
  show "\<exists>cur :: nat list. length cur = 4 \<and> cur ! 0 = 0 \<and> cur ! 0 \<le> cur ! 1 \<and> cur ! 1 = cur ! 2
          \<and> cur ! 2 \<le> cur ! 3"
    apply (elim exE conjE)
    subgoal premises prems for cur
    proof -
      note lc = prems(1) and c0 = prems(2) and all = prems(3)
      have i: "(0::nat) < length example_sentences" "(1::nat) < length example_sentences"
        "(2::nat) < length example_sentences"
        by (simp_all add: len)
      note a0 = all [rule_format, OF i(1), THEN conjunct1]
        and a1 = all [rule_format, OF i(2), THEN conjunct2, THEN conjunct1, rule_format, OF e1,
                      THEN conjunct1]
        and a2 = all [rule_format, OF i(3), THEN conjunct1]
      have "cur ! 0 \<le> cur ! 1" "cur ! 1 = cur ! 2" "cur ! 2 \<le> cur ! 3"
        using a0 a1 a2
        by (simp_all add: eval_nat_numeral)
      moreover have "length cur = 4"
        using lc len by simp
      ultimately show ?thesis
        using c0 by blast
    qed
    done
qed

text \<open>
  The second line cleans to nothing and gets \<open>(0.0, 0.0)\<close>, which is the time of no word.
\<close>

theorem get_sentence_timestamps_empty_counterexample:
  "get_sentence_timestamps ascii example_words example_sentences = Inr [(1, 3), (0, 0), (3.5, 4)]
   \<and> 0 \<notin> set (map w_start example_words)
   \<and> 0 \<notin> set (map w_end example_words)"
proof -
  have "get_sentence_timestamps ascii example_words example_sentences
          = Inr [(1, 3), (0, 0), (3.5, 4)]"
    by code_simp
  then show ?thesis
    by (simp add: example_words_def)
qed

section \<open>Properties of the TimelineRenderer\<close>

lemma render_lines_spec:
  assumes "render_lines sp cur acc cs = Inr (cur', ts)"
  shows "cur' = cur + sum_list (map clip_ad_dur cs)
       \<and> length ts = length acc + length cs
       \<and> (cs \<noteq> [] \<longrightarrow> snd (last ts) = cur')"
  using assms
proof (induction cs arbitrary: cur acc)
  case Nil
  then show ?case by simp
next
  case (Cons c cs)
  from Cons.prems have rec:
    "render_lines sp (cur + clip_ad_dur c) (acc @ [(cur, cur + clip_ad_dur c)]) cs = Inr (cur', ts)"
    by (simp split: sum.splits)
  note ih = Cons.IH [OF rec]
  show ?case
  proof (cases "cs = []")
    case True
    with rec show ?thesis
      by auto
  next
    case False
    with ih show ?thesis
      by simp
  qed
qed

lemma first_index_distinct:
  assumes "distinct (map number T)" "i < length T"
  shows "first_index (number (T ! i)) T = Some i"
  using assms
proof (induction T arbitrary: i)
  case Nil
  then show ?case by simp
next
  case (Cons r T)
  show ?case
  proof (cases i)
    case 0
    then show ?thesis by simp
  next
    case (Suc j)
    with Cons.prems have j: "j < length T" and d: "distinct (map number T)"
      and nr: "number r \<notin> set (map number T)"
      by simp_all
    have "number (T ! j) \<in> set (map number T)"
      using j by simp
    with nr have "number r \<noteq> number (T ! j)"
      by metis
    with Cons.IH [OF d j] Suc show ?thesis
      by simp
  qed
qed

lemma first_index_numbers:
  "map number df = map number T \<Longrightarrow> first_index n df = first_index n T"
proof (induction df arbitrary: T)
  case Nil
  then show ?case by simp
next
  case (Cons r df)
  then obtain r' T' where T: "T = r' # T'"
    by (cases T) auto
  with Cons.prems have "number r = number r'" "map number df = map number T'"
    by simp_all
  with Cons.IH [of T'] show ?case
    by (simp add: T)
qed

lemma map_number_update:
  "map number (df[j := (df ! j)\<lparr>new_sub_times := v\<rparr>]) = map number df"
  by (cases "j < length df") (simp_all add: map_update list_update_same_conv list_update_beyond)

text \<open>
  The time one line adds to the cursor: the scaled gap before it, when gaps are kept and
  the line is not the first, and the measured lengths of its clips.
\<close>

lemma render_rows_spec:
  assumes d: "distinct (map number T)"
      and c: "\<forall>i \<in> set idxs. i < length chunk \<and> cs + i < length T \<and> chunk ! i = T ! (cs + i)"
      and n: "map number df = map number T"
      and r: "render_rows chunk sp keep idxs cur df = Inr (cur', df')"
  shows "cur' = cur + sum_list (map (\<lambda>i. (if i \<noteq> 0 \<and> keep then gap (chunk ! (i - 1)) / sp else 0)
                                        + sum_list (map clip_ad_dur (lines (chunk ! i)))) idxs)
       \<and> map number df' = map number T
       \<and> (idxs \<noteq> [] \<longrightarrow>
            (\<exists>ts. new_sub_times (df' ! (cs + last idxs)) = Some ts
               \<and> length ts = length (lines (chunk ! last idxs))
               \<and> (ts \<noteq> [] \<longrightarrow> snd (last ts) = cur')))"
  using c n r
proof (induction idxs arbitrary: cur df)
  case Nil
  then show ?case by simp
next
  case (Cons i idxs)
  define cur1 where "cur1 = (if i \<noteq> 0 \<and> keep then cur + gap (chunk ! (i - 1)) / sp else cur)"
  from Cons.prems(1) have i: "i < length chunk" "cs + i < length T" "chunk ! i = T ! (cs + i)"
    by simp_all
  have fi: "first_index (number (chunk ! i)) df = Some (cs + i)"
    using first_index_numbers [OF Cons.prems(2)] first_index_distinct [OF d i(2)] i(3) by simp
  have step: "(case render_lines sp cur1 [] (lines (chunk ! i)) of
                 Inl e \<Rightarrow> Inl e
               | Inr (cur_time2, new_times) \<Rightarrow>
                   (case first_index (number (chunk ! i)) df of
                      None \<Rightarrow> Inl IndexError
                    | Some main_df_idx \<Rightarrow>
                        render_rows chunk sp keep idxs cur_time2
                          (df[main_df_idx := (df ! main_df_idx)\<lparr>new_sub_times := Some new_times\<rparr>])))
              = Inr (cur', df')"
    using Cons.prems(3) unfolding cur1_def by (simp only: render_rows.simps Let_def)
  then obtain cur2 ts where
    rl: "render_lines sp cur1 [] (lines (chunk ! i)) = Inr (cur2, ts)"
    by (auto split: sum.splits)
  define df1 where "df1 = df[cs + i := (df ! (cs + i))\<lparr>new_sub_times := Some ts\<rparr>]"
  have rec: "render_rows chunk sp keep idxs cur2 df1 = Inr (cur', df')"
    using step by (simp add: rl fi df1_def)
  have n1: "map number df1 = map number T"
    unfolding df1_def using Cons.prems(2) by (simp add: map_number_update)
  have c1: "\<forall>i \<in> set idxs. i < length chunk \<and> cs + i < length T \<and> chunk ! i = T ! (cs + i)"
    using Cons.prems(1) by simp
  note ih = Cons.IH [OF c1 n1 rec]
  note ls = render_lines_spec [OF rl]
  have cur2: "cur2 = cur + ((if i \<noteq> 0 \<and> keep then gap (chunk ! (i - 1)) / sp else 0)
                            + sum_list (map clip_ad_dur (lines (chunk ! i))))"
    using ls by (simp add: cur1_def)
  have sum: "cur' = cur + sum_list (map (\<lambda>i. (if i \<noteq> 0 \<and> keep then gap (chunk ! (i - 1)) / sp else 0)
                                        + sum_list (map clip_ad_dur (lines (chunk ! i)))) (i # idxs))"
    using ih cur2 by simp
  have lastw: "\<exists>ts. new_sub_times (df' ! (cs + last (i # idxs))) = Some ts
               \<and> length ts = length (lines (chunk ! last (i # idxs)))
               \<and> (ts \<noteq> [] \<longrightarrow> snd (last ts) = cur')"
  proof (cases "idxs = []")
    case True
    with rec have e: "cur' = cur2" "df' = df1"
      by simp_all
    have ldf: "cs + i < length df"
      using i(2) Cons.prems(2) by (metis length_map)
    have "new_sub_times (df1 ! (cs + i)) = Some ts"
      using ldf by (simp add: df1_def)
    moreover have "length ts = length (lines (chunk ! i))"
      using ls by simp
    moreover have "ts \<noteq> [] \<longrightarrow> snd (last ts) = cur2"
      using ls by auto
    ultimately show ?thesis
      using True e by simp
  next
    case False
    with ih have "\<exists>ts. new_sub_times (df' ! (cs + last idxs)) = Some ts
               \<and> length ts = length (lines (chunk ! last idxs))
               \<and> (ts \<noteq> [] \<longrightarrow> snd (last ts) = cur')"
      by blast
    moreover have "last (i # idxs) = last idxs"
      using False by simp
    ultimately show ?thesis
      by (simp only:)
  qed
  from sum ih lastw show ?case
    by blast
qed

lemma sum_take:
  "k \<le> length ys \<Longrightarrow> sum_list (map (\<lambda>j. g (ys ! j)) [0..<k]) = sum_list (map g (take k ys))"
  by (induction k) (simp_all add: take_Suc_conv_app_nth)

lemma sum_rows:
  "sum_list (map (\<lambda>i. f (chunk ! i)) [0..<length chunk]) = sum_list (map f chunk)"
  using sum_take [of "length chunk" chunk f] by simp

lemma sum_gaps_before:
  "sum_list (map (\<lambda>i. if i \<noteq> 0 then g (chunk ! (i - 1)) else 0) [0..<length chunk])
     = sum_list (map g (butlast chunk))"
proof (cases "chunk = []")
  case True
  then show ?thesis by simp
next
  case False
  then have n: "0 < length chunk" by simp
  have "[0..<length chunk] = 0 # map Suc [0..<length chunk - 1]"
    using n by (simp add: upt_conv_Cons map_Suc_upt)
  then have "sum_list (map (\<lambda>i. if i \<noteq> 0 then g (chunk ! (i - 1)) else 0) [0..<length chunk])
               = sum_list (map (\<lambda>j. g (chunk ! j)) [0..<length chunk - 1])"
    by (simp add: comp_def)
  also have "\<dots> = sum_list (map g (take (length chunk - 1) chunk))"
    by (rule sum_take) simp
  finally show ?thesis
    by (simp add: butlast_conv_take)
qed


lemma trim_overflow_spec:
  assumes fi: "first_index (number (last chunk)) df = Some idx"
      and idx: "idx < length df"
      and nst: "new_sub_times (df ! idx) = Some ts"
      and len: "length ts = length (lines (last chunk))"
      and res: "trim_overflow chunk td ce df = Inr (df2, trims)"
  shows "lines (last chunk) \<noteq> []
       \<and> trims = [(number (last chunk), int (length (lines (last chunk))) - 1,
                   py_int (real_of_int (clip_len_ms (last (lines (last chunk)))) - td * 1000))]
       \<and> (\<exists>ts2. new_sub_times (df2 ! idx) = Some ts2 \<and> length ts2 = length ts
              \<and> snd (last ts2) = ce)"
proof (cases "lines (last chunk)")
  case Nil
  with res show ?thesis
    by (simp add: trim_overflow_def)
next
  case (Cons c cs)
  with len obtain t ts' where ts: "ts = t # ts'"
    by (cases ts) auto
  define ts2 where "ts2 = (t # ts')[length ts' := (fst (last (t # ts')), ce)]"
  have r: "trim_overflow chunk td ce df
             = Inr (df[idx := (df ! idx)\<lparr>new_sub_times := Some ts2\<rparr>],
                    [(number (last chunk), int (length (lines (last chunk))) - 1,
                      py_int (real_of_int (clip_len_ms (last (lines (last chunk)))) - td * 1000))])"
    unfolding trim_overflow_def Let_def ts2_def
    by (simp add: Cons fi nst ts)
  have l2: "length ts2 = length ts"
    unfolding ts2_def ts by (rule length_list_update)
  have ne2: "ts2 \<noteq> []" and l2': "length ts2 - 1 = length ts'"
    using l2 ts by auto
  have "last ts2 = ts2 ! length ts'"
    using ne2 l2' by (simp add: last_conv_nth)
  also have "\<dots> = (fst (last (t # ts')), ce)"
    unfolding ts2_def by (rule nth_list_update_eq) simp
  finally have "snd (last ts2) = ce"
    by simp
  moreover from res r have e: "df2 = df[idx := (df ! idx)\<lparr>new_sub_times := Some ts2\<rparr>]"
    "trims = [(number (last chunk), int (length (lines (last chunk))) - 1,
               py_int (real_of_int (clip_len_ms (last (lines (last chunk)))) - td * 1000))]"
    by simp_all
  moreover have "new_sub_times (df2 ! idx) = Some ts2"
    using idx by (simp add: e(1))
  moreover have "lines (last chunk) \<noteq> []"
    using Cons by simp
  ultimately show ?thesis
    using l2 by blast
qed

lemma py_int_trim:
  assumes "x \<le> real_of_int n"
  shows "x \<le> real_of_int (n - py_int (real_of_int n - x))"
    and "real_of_int (n - py_int (real_of_int n - x)) < x + 1"
  using assms by (simp_all add: py_int_def) linarith+


text \<open>
  The body of the chunk loop. Let the numbers of the table be distinct and let the chunk of
  rows \<open>chunk_start_index .. index\<close> be rendered without an exception. Then the rendered span, from the chunk's start to the cursor after the last
  clip, is the sum of the measured lengths of the chunk's adjusted clips plus, when gaps
  are kept, every internal gap (the gap of every line but the last) divided by the speed
  factor, and plus nothing when gaps are dropped. If the cursor exceeds the nominal end
  (the last line's end time plus its tolerance) by at most 0.6 seconds, the last line has
  a clip, its last output file is sliced with \<open>audio[:int(len_ms - 1000 * excess)]\<close> and
  the end of the last recorded pair is the nominal end; when the clip is at least as long
  as the excess, the excess rounded up to a whole millisecond is taken off. If the cursor
  exceeds the nominal end by more than 0.6 seconds nothing is cut and the last recorded
  end stays at the cursor, more than 0.6 seconds past the nominal end.
\<close>

theorem render_chunk_span:
  assumes d: "distinct (map number tasks_df)"
      and rng: "chunk_start_index \<le> index" "index < length tasks_df"
      and ch: "chunk = take (index + 1 - chunk_start_index) (drop chunk_start_index tasks_df)"
      and run: "render_chunk accept min_speed tasks_df chunk_start_index index = Inr r"
  shows "process_chunk chunk accept min_speed = Inr (r_speed_factor r, r_keep_gaps r)
       \<and> parse_df_srt_time (start_time_str (chunk ! 0)) = Inr (r_chunk_start_time r)
       \<and> (\<exists>end_time. parse_df_srt_time (end_time_str (last chunk)) = Inr end_time
              \<and> r_chunk_end_time r = end_time + tolerance (last chunk))
       \<and> r_cur_time r - r_chunk_start_time r
            = sum_list (map (\<lambda>row. sum_list (map clip_ad_dur (lines row))) chunk)
              + (if r_keep_gaps r
                 then sum_list (map (\<lambda>row. gap row / r_speed_factor r) (butlast chunk))
                 else 0)
       \<and> (r_cur_time r > r_chunk_end_time r \<and> r_cur_time r - r_chunk_end_time r \<le> 0.6 \<longrightarrow>
            lines (last chunk) \<noteq> []
            \<and> r_trims r
                = [(number (last chunk), int (length (lines (last chunk))) - 1,
                    py_int (real_of_int (clip_len_ms (last (lines (last chunk))))
                            - (r_cur_time r - r_chunk_end_time r) * 1000))]
            \<and> ((r_cur_time r - r_chunk_end_time r) * 1000
                   \<le> real_of_int (clip_len_ms (last (lines (last chunk)))) \<longrightarrow>
                 (r_cur_time r - r_chunk_end_time r) * 1000
                   \<le> real_of_int (clip_len_ms (last (lines (last chunk))) - snd (snd (hd (r_trims r))))
                 \<and> real_of_int (clip_len_ms (last (lines (last chunk))) - snd (snd (hd (r_trims r))))
                   < (r_cur_time r - r_chunk_end_time r) * 1000 + 1)
            \<and> (\<exists>ts. new_sub_times (r_tasks r ! index) = Some ts
                   \<and> length ts = length (lines (last chunk))
                   \<and> snd (last ts) = r_chunk_end_time r))
       \<and> (r_cur_time r - r_chunk_end_time r > 0.6 \<longrightarrow>
            r_trims r = []
            \<and> (lines (last chunk) \<noteq> [] \<longrightarrow>
                 (\<exists>ts. new_sub_times (r_tasks r ! index) = Some ts
                    \<and> length ts = length (lines (last chunk))
                    \<and> snd (last ts) = r_cur_time r
                    \<and> snd (last ts) - r_chunk_end_time r > 0.6)))"
proof -
  define n where "n = length chunk"
  have n: "n = index + 1 - chunk_start_index"
    using rng by (simp add: n_def ch)
  have npos: "0 < n"
    using rng n by simp
  have ne: "chunk \<noteq> []"
    using npos by (auto simp: n_def)
  have nth: "chunk ! i = tasks_df ! (chunk_start_index + i)" if "i < n" for i
    using that rng n by (simp add: ch)
  have lastc: "last chunk = chunk ! (n - 1)"
    using ne by (simp add: last_conv_nth n_def)
  have lasti: "chunk_start_index + (n - 1) = index"
    using rng n by simp
  from run obtain sp keep where pc: "process_chunk chunk accept min_speed = Inr (sp, keep)"
    unfolding render_chunk_def Let_def ch [symmetric] by (auto split: sum.splits)
  from run pc obtain t0 where ps: "parse_df_srt_time (start_time_str (chunk ! 0)) = Inr t0"
    unfolding render_chunk_def Let_def ch [symmetric] by (auto split: sum.splits)
  from run pc ps obtain t1 where pe: "parse_df_srt_time (end_time_str (last chunk)) = Inr t1"
    unfolding render_chunk_def Let_def ch [symmetric] by (auto split: sum.splits)
  define ce where "ce = t1 + tolerance (last chunk)"
  from run pc ps pe obtain cur df1 where
    rr: "render_rows chunk sp keep [0..<length chunk] t0 tasks_df = Inr (cur, df1)"
    unfolding render_chunk_def Let_def ch [symmetric] by (auto split: sum.splits)
  define res where "res = \<lparr>r_speed_factor = sp, r_keep_gaps = keep, r_chunk_start_time = t0,
                             r_chunk_end_time = ce, r_cur_time = cur, r_tasks = df1, r_trims = []\<rparr>"
  have run': "(if cur > ce
               then (let time_diff = cur - ce
                     in if time_diff \<le> 0.6
                        then (case trim_overflow chunk time_diff ce df1 of
                                Inl e \<Rightarrow> Inl e
                              | Inr (tasks_df2, trims) \<Rightarrow>
                                  Inr (res\<lparr>r_tasks := tasks_df2, r_trims := trims\<rparr>))
                        else Inr res)
               else Inr res) = Inr r"
    using run unfolding render_chunk_def Let_def ch [symmetric] res_def ce_def
    by (simp add: pc ps pe rr)
  have idxs: "\<forall>i \<in> set [0..<length chunk].
                i < length chunk \<and> chunk_start_index + i < length tasks_df
                \<and> chunk ! i = tasks_df ! (chunk_start_index + i)"
    using nth rng n by (auto simp: n_def)
  note rs = render_rows_spec [OF d idxs refl rr]
  have lastidx: "last [0..<length chunk] = n - 1"
    using npos by (simp add: n_def)
  have span: "cur - t0 = sum_list (map (\<lambda>row. sum_list (map clip_ad_dur (lines row))) chunk)
              + (if keep then sum_list (map (\<lambda>row. gap row / sp) (butlast chunk)) else 0)"
  proof -
    have "cur - t0 = sum_list (map (\<lambda>i. (if i \<noteq> 0 \<and> keep then gap (chunk ! (i - 1)) / sp else 0)
                                        + sum_list (map clip_ad_dur (lines (chunk ! i)))) [0..<length chunk])"
      using rs by simp
    also have "\<dots> = sum_list (map (\<lambda>i. if i \<noteq> 0 \<and> keep then gap (chunk ! (i - 1)) / sp else 0) [0..<length chunk])
                    + sum_list (map (\<lambda>i. sum_list (map clip_ad_dur (lines (chunk ! i)))) [0..<length chunk])"
      by (simp add: sum_list_addf)
    also have "sum_list (map (\<lambda>i. sum_list (map clip_ad_dur (lines (chunk ! i)))) [0..<length chunk])
                 = sum_list (map (\<lambda>row. sum_list (map clip_ad_dur (lines row))) chunk)"
      by (rule sum_rows)
    also have "sum_list (map (\<lambda>i. if i \<noteq> 0 \<and> keep then gap (chunk ! (i - 1)) / sp else 0) [0..<length chunk])
                 = (if keep then sum_list (map (\<lambda>row. gap row / sp) (butlast chunk)) else 0)"
    proof (cases keep)
      case True
      then show ?thesis
        using sum_gaps_before [of "\<lambda>row. gap row / sp" chunk] by simp
    next
      case False
      then show ?thesis by simp
    qed
    finally show ?thesis
      by simp
  qed
  from rs ne lastidx obtain ts where
    ts: "new_sub_times (df1 ! (chunk_start_index + (n - 1))) = Some ts"
    "length ts = length (lines (chunk ! (n - 1)))" "ts \<noteq> [] \<longrightarrow> snd (last ts) = cur"
    by auto
  have ts': "new_sub_times (df1 ! index) = Some ts" "length ts = length (lines (last chunk))"
    using ts lasti lastc by simp_all
  have nums: "map number df1 = map number tasks_df"
    using rs by simp
  have l1: "index < length df1"
    using rng nums by (metis length_map)
  have fi: "first_index (number (last chunk)) df1 = Some index"
    using first_index_numbers [OF nums] first_index_distinct [OF d rng(2)] nth [of "n - 1"] npos
      lastc lasti
    by simp
  show ?thesis
  proof (cases "cur > ce \<and> cur - ce \<le> 0.6")
    case True
    with run' obtain df2 trims where
      tr: "trim_overflow chunk (cur - ce) ce df1 = Inr (df2, trims)"
      and r: "r = res\<lparr>r_tasks := df2, r_trims := trims\<rparr>"
      by (auto simp: Let_def split: sum.splits)
    note to = trim_overflow_spec [OF fi l1 ts'(1) ts'(2) tr]
    have f: "r_speed_factor r = sp" "r_keep_gaps r = keep" "r_chunk_start_time r = t0"
      "r_chunk_end_time r = ce" "r_cur_time r = cur" "r_tasks r = df2" "r_trims r = trims"
      by (simp_all add: r res_def)
    have tm: "(cur - ce) * 1000 \<le> real_of_int (clip_len_ms (last (lines (last chunk)))) \<longrightarrow>
                 (cur - ce) * 1000
                   \<le> real_of_int (clip_len_ms (last (lines (last chunk))) - snd (snd (hd trims)))
                 \<and> real_of_int (clip_len_ms (last (lines (last chunk))) - snd (snd (hd trims)))
                   < (cur - ce) * 1000 + 1"
      using to py_int_trim [of "(cur - ce) * 1000" "clip_len_ms (last (lines (last chunk)))"]
      by simp
    show ?thesis
      unfolding f using pc ps pe span to tm True ts'(2) by (auto simp: ce_def)
  next
    case False
    with run' have r: "r = res"
      by (auto simp: Let_def split: if_splits)
    have f: "r_speed_factor r = sp" "r_keep_gaps r = keep" "r_chunk_start_time r = t0"
      "r_chunk_end_time r = ce" "r_cur_time r = cur" "r_tasks r = df1" "r_trims r = []"
      by (simp_all add: r res_def)
    have "\<exists>ts. new_sub_times (df1 ! index) = Some ts
                    \<and> length ts = length (lines (last chunk))
                    \<and> snd (last ts) = cur
                    \<and> snd (last ts) - ce > 0.6"
      if "cur - ce > 0.6" "lines (last chunk) \<noteq> []"
      using that ts ts' by (intro exI [of _ ts]) auto
    then show ?thesis
      unfolding f using pc ps pe span False by (auto simp: ce_def)
  qed
qed


theorem render_chunk_span_witness:
  "(case render_chunk 1.2 1 example_tasks 0 1 of Inl _ \<Rightarrow> False
    | Inr r \<Rightarrow> r_speed_factor r = 1.212 \<and> \<not> r_keep_gaps r
        \<and> r_cur_time r - r_chunk_start_time r = 10.29
        \<and> r_chunk_end_time r = 10.2
        \<and> r_trims r = [(2, 0, 5160)]
        \<and> map_option (\<lambda>ts. snd (last ts)) (new_sub_times (r_tasks r ! 1)) = Some 10.2)
   \<and> (case render_chunk 1.2 1 example_long 0 0 of Inl _ \<Rightarrow> False
    | Inr r \<Rightarrow> r_cur_time r - r_chunk_end_time r = 0.65
        \<and> r_trims r = []
        \<and> map_option (\<lambda>ts. snd (last ts)) (new_sub_times (r_tasks r ! 0)) = Some 40.65)"
proof -
  have e1: "(case render_chunk 1.2 1 example_tasks 0 1 of Inl _ \<Rightarrow> False
      | Inr r \<Rightarrow> r_speed_factor r = 1.212 \<and> \<not> r_keep_gaps r \<and> r_cur_time r = 10.29
          \<and> r_chunk_start_time r = 0 \<and> r_chunk_end_time r = 10.2)"
    by code_simp
  then obtain r where run: "render_chunk 1.2 1 example_tasks 0 1 = Inr r"
    and v: "r_speed_factor r = 1.212" "\<not> r_keep_gaps r" "r_cur_time r = 10.29"
           "r_chunk_start_time r = 0" "r_chunk_end_time r = 10.2"
    by (cases "render_chunk 1.2 1 example_tasks 0 1") auto
  have d: "distinct (map number example_tasks)"
    by (simp add: example_tasks_def example_row_def)
  have len: "length example_tasks = 2"
    by (simp add: example_tasks_def)
  have ch: "take (1 + 1 - 0) (drop 0 example_tasks) = example_tasks"
    by (simp add: len)
  have lst: "last example_tasks = example_row 2 ''00:00:05.000'' ''00:00:10.000'' 0.2 0.2 5.2 6.24 1 [example_clip 6.24 5.25]"
    by (simp add: example_tasks_def)
  have sp: "r_speed_factor r \<noteq> 0"
    by (simp add: v)
  have a: "r_cur_time r > r_chunk_end_time r \<and> r_cur_time r - r_chunk_end_time r \<le> 0.6"
    by (simp add: v)
  have pi: "py_int (5250 - (10.29 - 10.2) * 1000) = 5160"
    by code_simp
  from render_chunk_span [OF d _ _ ch [symmetric] run] a
  have t: "r_trims r = [(number (last example_tasks), int (length (lines (last example_tasks))) - 1,
                 py_int (real_of_int (clip_len_ms (last (lines (last example_tasks))))
                           - (r_cur_time r - r_chunk_end_time r) * 1000))]"
    and s: "\<exists>ts. new_sub_times (r_tasks r ! 1) = Some ts \<and> snd (last ts) = r_chunk_end_time r"
    by (auto simp: len)
  have t': "r_trims r = [(2, 0, 5160)]"
    using t pi by (simp add: lst v example_row_def example_clip_def)
  have s': "map_option (\<lambda>ts. snd (last ts)) (new_sub_times (r_tasks r ! 1)) = Some 10.2"
    using s by (auto simp: v)
  have first: "(case render_chunk 1.2 1 example_tasks 0 1 of Inl _ \<Rightarrow> False
    | Inr r \<Rightarrow> r_speed_factor r = 1.212 \<and> \<not> r_keep_gaps r
        \<and> r_cur_time r - r_chunk_start_time r = 10.29
        \<and> r_chunk_end_time r = 10.2
        \<and> r_trims r = [(2, 0, 5160)]
        \<and> map_option (\<lambda>ts. snd (last ts)) (new_sub_times (r_tasks r ! 1)) = Some 10.2)"
    unfolding run sum.case using v t' s' by simp
  have e2: "(case render_chunk 1.2 1 example_long 0 0 of Inl _ \<Rightarrow> False
      | Inr r \<Rightarrow> r_speed_factor r = 1.504 \<and> r_cur_time r = 40.65 \<and> r_chunk_end_time r = 40)"
    by code_simp
  then obtain q where runq: "render_chunk 1.2 1 example_long 0 0 = Inr q"
    and w: "r_speed_factor q = 1.504" "r_cur_time q = 40.65" "r_chunk_end_time q = 40"
    by (cases "render_chunk 1.2 1 example_long 0 0") auto
  have dq: "distinct (map number example_long)"
    by (simp add: example_long_def example_row_def)
  have lenq: "length example_long = 1"
    by (simp add: example_long_def)
  have chq: "take (0 + 1 - 0) (drop 0 example_long) = example_long"
    by (simp add: lenq)
  have lstq: "lines (last example_long) \<noteq> []"
    by (simp add: example_long_def example_row_def)
  have spq: "r_speed_factor q \<noteq> 0"
    by (simp add: w)
  have b: "r_cur_time q - r_chunk_end_time q > 0.6"
    by (simp add: w)
  from render_chunk_span [OF dq _ _ chq [symmetric] runq] b lstq
  have tq: "r_trims q = []"
    and sq: "\<exists>ts. new_sub_times (r_tasks q ! 0) = Some ts \<and> snd (last ts) = r_cur_time q"
    by (auto simp: lenq)
  have sq': "map_option (\<lambda>ts. snd (last ts)) (new_sub_times (r_tasks q ! 0)) = Some 40.65"
    using sq by (auto simp: w)
  have second: "(case render_chunk 1.2 1 example_long 0 0 of Inl _ \<Rightarrow> False
    | Inr r \<Rightarrow> r_cur_time r - r_chunk_end_time r = 0.65
        \<and> r_trims r = []
        \<and> map_option (\<lambda>ts. snd (last ts)) (new_sub_times (r_tasks r ! 0)) = Some 40.65)"
    unfolding runq sum.case using w tq sq' by simp
  from first second show ?thesis
    by (rule conjI)
qed

text \<open>
  The renderer reads every column but \<open>new_sub_times\<close>: two tables that agree on the
  other columns are rendered alike.
\<close>

lemma unsub_fields:
  "number (unsub r) = number r" "start_time_str (unsub r) = start_time_str r"
  "end_time_str (unsub r) = end_time_str r" "gap (unsub r) = gap r"
  "tolerance (unsub r) = tolerance r" "tol_dur (unsub r) = tol_dur r"
  "cut_off (unsub r) = cut_off r" "lines (unsub r) = lines r" "real_dur (unsub r) = real_dur r"
  by (simp_all add: unsub_def)

lemma unsub_update:
  "unsub (r\<lparr>new_sub_times := v\<rparr>) = unsub r"
  by (simp add: unsub_def)

lemma unsub_eq:
  assumes "unsub a = unsub b"
  shows "number a = number b" "start_time_str a = start_time_str b"
    "end_time_str a = end_time_str b" "gap a = gap b" "tolerance a = tolerance b"
    "tol_dur a = tol_dur b" "cut_off a = cut_off b" "lines a = lines b" "real_dur a = real_dur b"
  using assms unsub_fields by metis+

lemma map_unsub_update:
  "map unsub (df[j := (df ! j)\<lparr>new_sub_times := v\<rparr>]) = map unsub df"
  by (cases "j < length df") (simp_all add: map_update unsub_update list_update_same_conv list_update_beyond)

lemma map_unsub_numbers:
  assumes "map unsub a = map unsub b"
  shows "map number a = map number b"
proof -
  have "map number a = map number (map unsub a)"
    by (simp add: unsub_fields comp_def)
  also have "\<dots> = map number (map unsub b)"
    using assms by simp
  also have "\<dots> = map number b"
    by (simp add: unsub_fields comp_def)
  finally show ?thesis .
qed

lemma map_unsub_nth:
  assumes "map unsub a = map unsub b" "i < length a"
  shows "unsub (a ! i) = unsub (b ! i)"
proof -
  have l: "length a = length b"
    using assms(1) by (metis length_map)
  have "unsub (a ! i) = map unsub a ! i"
    using assms(2) by simp
  also have "\<dots> = map unsub b ! i"
    using assms(1) by simp
  also have "\<dots> = unsub (b ! i)"
    using assms(2) l by simp
  finally show ?thesis .
qed

lemma map_unsub_fun:
  assumes "map unsub a = map unsub b" and f: "\<And>r. f (unsub r) = f r"
  shows "map f a = map f b"
proof -
  have "map f a = map f (map unsub a)"
    by (simp add: f comp_def)
  also have "\<dots> = map f (map unsub b)"
    using assms(1) by simp
  also have "\<dots> = map f b"
    by (simp add: f comp_def)
  finally show ?thesis .
qed

lemma map_unsub_last:
  assumes "map unsub a = map unsub b" "a \<noteq> []"
  shows "unsub (last a) = unsub (last b)"
proof -
  have b: "b \<noteq> []"
    using assms by auto
  have "unsub (last a) = last (map unsub a)"
    using assms(2) by (simp add: last_map)
  also have "\<dots> = last (map unsub b)"
    using assms(1) by simp
  also have "\<dots> = unsub (last b)"
    using b by (simp add: last_map)
  finally show ?thesis .
qed

lemma process_chunk_unsub:
  assumes "map unsub a = map unsub b"
  shows "process_chunk a accept min_speed = process_chunk b accept min_speed"
proof (cases "a = []")
  case True
  with assms have "b = []" by auto
  with True show ?thesis by simp
next
  case False
  with assms have b: "b \<noteq> []" by auto
  obtain x xs where a': "a = x # xs" using False by (cases a) auto
  obtain y ys where b': "b = y # ys" using b by (cases b) auto
  have m: "map real_dur a = map real_dur b" "map tol_dur a = map tol_dur b" "map gap a = map gap b"
    using assms by (auto intro: map_unsub_fun simp: unsub_fields)
  have l: "tolerance (last a) = tolerance (last b)" "gap (last a) = gap (last b)"
    using unsub_eq [OF map_unsub_last [OF assms False]] by simp_all
  show ?thesis
    unfolding process_chunk_def m l
    by (simp add: a' b')
qed

text \<open>
  What the renderer leaves untouched, and the pair recorded for the last clip of a line.
\<close>

lemma render_lines_last:
  assumes "render_lines sp cur acc cs = Inr (cur', ts)" "cs \<noteq> []"
  shows "last ts = (cur' - clip_ad_dur (last cs), cur')"
  using assms
proof (induction cs arbitrary: cur acc)
  case Nil
  then show ?case by simp
next
  case (Cons c cs)
  from Cons.prems have rec:
    "render_lines sp (cur + clip_ad_dur c) (acc @ [(cur, cur + clip_ad_dur c)]) cs = Inr (cur', ts)"
    by (simp split: sum.splits)
  show ?case
  proof (cases "cs = []")
    case True
    with rec show ?thesis
      by auto
  next
    case False
    with Cons.IH [OF rec] show ?thesis
      by simp
  qed
qed


lemma render_rows_frame:
  assumes d: "distinct (map number T)"
      and c: "\<forall>i \<in> set idxs. i < length chunk \<and> cs + i < length T \<and> chunk ! i = T ! (cs + i)"
      and n: "map number df = map number T"
      and r: "render_rows chunk sp keep idxs cur df = Inr (cur', df')"
  shows "map unsub df' = map unsub df
       \<and> (\<forall>j. j \<notin> (\<lambda>i. cs + i) ` set idxs \<longrightarrow> df' ! j = df ! j)
       \<and> (idxs \<noteq> [] \<longrightarrow> lines (chunk ! last idxs) \<noteq> [] \<longrightarrow>
            (\<exists>ts. new_sub_times (df' ! (cs + last idxs)) = Some ts
               \<and> last ts = (cur' - clip_ad_dur (last (lines (chunk ! last idxs))), cur')))"
  using c n r
proof (induction idxs arbitrary: cur df)
  case Nil
  then show ?case by simp
next
  case (Cons i idxs)
  define cur1 where "cur1 = (if i \<noteq> 0 \<and> keep then cur + gap (chunk ! (i - 1)) / sp else cur)"
  from Cons.prems(1) have i: "i < length chunk" "cs + i < length T" "chunk ! i = T ! (cs + i)"
    by simp_all
  have fi: "first_index (number (chunk ! i)) df = Some (cs + i)"
    using first_index_numbers [OF Cons.prems(2)] first_index_distinct [OF d i(2)] i(3) by simp
  have step: "(case render_lines sp cur1 [] (lines (chunk ! i)) of
                 Inl e \<Rightarrow> Inl e
               | Inr (cur_time2, new_times) \<Rightarrow>
                   (case first_index (number (chunk ! i)) df of
                      None \<Rightarrow> Inl IndexError
                    | Some main_df_idx \<Rightarrow>
                        render_rows chunk sp keep idxs cur_time2
                          (df[main_df_idx := (df ! main_df_idx)\<lparr>new_sub_times := Some new_times\<rparr>])))
              = Inr (cur', df')"
    using Cons.prems(3) unfolding cur1_def by (simp only: render_rows.simps Let_def)
  then obtain cur2 ts where
    rl: "render_lines sp cur1 [] (lines (chunk ! i)) = Inr (cur2, ts)"
    by (auto split: sum.splits)
  define df1 where "df1 = df[cs + i := (df ! (cs + i))\<lparr>new_sub_times := Some ts\<rparr>]"
  have rec: "render_rows chunk sp keep idxs cur2 df1 = Inr (cur', df')"
    using step by (simp add: rl fi df1_def)
  have n1: "map number df1 = map number T"
    unfolding df1_def using Cons.prems(2) by (simp add: map_number_update)
  have c1: "\<forall>i \<in> set idxs. i < length chunk \<and> cs + i < length T \<and> chunk ! i = T ! (cs + i)"
    using Cons.prems(1) by simp
  note ih = Cons.IH [OF c1 n1 rec]
  have u1: "map unsub df1 = map unsub df"
    unfolding df1_def by (rule map_unsub_update)
  have u: "map unsub df' = map unsub df"
    using ih u1 by simp
  have fr: "df' ! j = df ! j" if "j \<notin> (\<lambda>i. cs + i) ` set (i # idxs)" for j
  proof -
    from that have a: "j \<noteq> cs + i" and b: "j \<notin> (\<lambda>i. cs + i) ` set idxs"
      by auto
    from ih b have "df' ! j = df1 ! j"
      by blast
    also have "\<dots> = df ! j"
      using a by (simp add: df1_def)
    finally show ?thesis .
  qed
  have lastw: "\<exists>ts. new_sub_times (df' ! (cs + last (i # idxs))) = Some ts
               \<and> last ts = (cur' - clip_ad_dur (last (lines (chunk ! last (i # idxs)))), cur')"
    if ne: "lines (chunk ! last (i # idxs)) \<noteq> []"
  proof (cases "idxs = []")
    case True
    with rec have e: "cur' = cur2" "df' = df1"
      by simp_all
    have ldf: "cs + i < length df"
      using i(2) Cons.prems(2) by (metis length_map)
    have "new_sub_times (df1 ! (cs + i)) = Some ts"
      using ldf by (simp add: df1_def)
    moreover have "last ts = (cur2 - clip_ad_dur (last (lines (chunk ! i))), cur2)"
      using render_lines_last [OF rl] ne True by simp
    ultimately show ?thesis
      using True e by simp
  next
    case False
    then have l: "last (i # idxs) = last idxs"
      by simp
    have "lines (chunk ! last idxs) \<noteq> []"
      using ne unfolding l .
    with ih False have "\<exists>ts. new_sub_times (df' ! (cs + last idxs)) = Some ts
               \<and> last ts = (cur' - clip_ad_dur (last (lines (chunk ! last idxs))), cur')"
      by blast
    then show ?thesis
      by (simp only: l)
  qed
  from u fr lastw show ?case
    by blast
qed

lemma trim_overflow_frame:
  assumes fi: "first_index (number (last chunk)) df = Some idx"
      and idx: "idx < length df"
      and nst: "new_sub_times (df ! idx) = Some ts"
      and res: "trim_overflow chunk td ce df = Inr (df2, trims)"
  shows "map unsub df2 = map unsub df
       \<and> (\<forall>j. j \<noteq> idx \<longrightarrow> df2 ! j = df ! j)
       \<and> (\<forall>t \<in> set trims. fst t = number (last chunk))
       \<and> (\<exists>ts2. new_sub_times (df2 ! idx) = Some ts2 \<and> last ts2 = (fst (last ts), ce))"
proof (cases "lines (last chunk)")
  case Nil
  with res show ?thesis
    by (simp add: trim_overflow_def)
next
  case (Cons c cs)
  show ?thesis
  proof (cases ts)
    case Nil
    with res show ?thesis
      by (simp add: trim_overflow_def Let_def Cons fi nst)
  next
    case ts: (Cons t ts')
    define ts2 where "ts2 = (t # ts')[length ts' := (fst (last (t # ts')), ce)]"
    have r: "trim_overflow chunk td ce df
               = Inr (df[idx := (df ! idx)\<lparr>new_sub_times := Some ts2\<rparr>],
                      [(number (last chunk), int (length (lines (last chunk))) - 1,
                        py_int (real_of_int (clip_len_ms (last (lines (last chunk)))) - td * 1000))])"
      unfolding trim_overflow_def Let_def ts2_def
      by (simp add: Cons fi nst ts)
    have l2: "length ts2 = length ts"
      unfolding ts2_def ts by (rule length_list_update)
    have ne2: "ts2 \<noteq> []" and l2': "length ts2 - 1 = length ts'"
      using l2 ts by auto
    have "last ts2 = ts2 ! length ts'"
      using ne2 l2' by (simp add: last_conv_nth)
    also have "\<dots> = (fst (last (t # ts')), ce)"
      unfolding ts2_def by (rule nth_list_update_eq) simp
    finally have l: "last ts2 = (fst (last ts), ce)"
      by (simp only: ts)
    from res r have e: "df2 = df[idx := (df ! idx)\<lparr>new_sub_times := Some ts2\<rparr>]"
      "trims = [(number (last chunk), int (length (lines (last chunk))) - 1,
                 py_int (real_of_int (clip_len_ms (last (lines (last chunk)))) - td * 1000))]"
      by simp_all
    have a: "map unsub df2 = map unsub df"
      unfolding e(1) by (rule map_unsub_update)
    have b: "\<forall>j. j \<noteq> idx \<longrightarrow> df2 ! j = df ! j"
      by (simp add: e(1))
    have c: "\<forall>t \<in> set trims. fst t = number (last chunk)"
      by (simp add: e(2))
    have "new_sub_times (df2 ! idx) = Some ts2"
      using idx by (simp add: e(1))
    with a b c l show ?thesis
      by blast
  qed
qed


lemma render_chunk_frame:
  assumes d: "distinct (map number tasks_df)"
      and rng: "chunk_start_index \<le> index" "index < length tasks_df"
      and ch: "chunk = take (index + 1 - chunk_start_index) (drop chunk_start_index tasks_df)"
      and run: "render_chunk accept min_speed tasks_df chunk_start_index index = Inr r"
  shows "map unsub (r_tasks r) = map unsub tasks_df
       \<and> (\<forall>j. j < chunk_start_index \<or> index < j \<longrightarrow> r_tasks r ! j = tasks_df ! j)
       \<and> (\<forall>t \<in> set (r_trims r). fst t = number (tasks_df ! index))
       \<and> (\<not> (r_cur_time r > r_chunk_end_time r \<and> r_cur_time r - r_chunk_end_time r \<le> 0.6) \<longrightarrow>
            r_trims r = [])
       \<and> (\<exists>ts. new_sub_times (r_tasks r ! index) = Some ts
              \<and> length ts = length (lines (last chunk))
              \<and> (lines (last chunk) \<noteq> [] \<longrightarrow>
                   last ts = (r_cur_time r - clip_ad_dur (last (lines (last chunk))),
                              if r_cur_time r > r_chunk_end_time r
                                 \<and> r_cur_time r - r_chunk_end_time r \<le> 0.6
                              then r_chunk_end_time r else r_cur_time r)))"
proof -
  define n where "n = length chunk"
  have n: "n = index + 1 - chunk_start_index"
    using rng by (simp add: n_def ch)
  have npos: "0 < n"
    using rng n by simp
  have ne: "chunk \<noteq> []"
    using npos by (auto simp: n_def)
  have nth: "chunk ! i = tasks_df ! (chunk_start_index + i)" if "i < n" for i
    using that rng n by (simp add: ch)
  have lastc: "last chunk = chunk ! (n - 1)"
    using ne by (simp add: last_conv_nth n_def)
  have lasti: "chunk_start_index + (n - 1) = index"
    using rng n by simp
  have lastr: "last chunk = tasks_df ! index"
    using lastc nth [of "n - 1"] npos lasti by simp
  from run obtain sp keep where pc: "process_chunk chunk accept min_speed = Inr (sp, keep)"
    unfolding render_chunk_def Let_def ch [symmetric] by (auto split: sum.splits)
  from run pc obtain t0 where ps: "parse_df_srt_time (start_time_str (chunk ! 0)) = Inr t0"
    unfolding render_chunk_def Let_def ch [symmetric] by (auto split: sum.splits)
  from run pc ps obtain t1 where pe: "parse_df_srt_time (end_time_str (last chunk)) = Inr t1"
    unfolding render_chunk_def Let_def ch [symmetric] by (auto split: sum.splits)
  define ce where "ce = t1 + tolerance (last chunk)"
  from run pc ps pe obtain cur df1 where
    rr: "render_rows chunk sp keep [0..<length chunk] t0 tasks_df = Inr (cur, df1)"
    unfolding render_chunk_def Let_def ch [symmetric] by (auto split: sum.splits)
  define res where "res = \<lparr>r_speed_factor = sp, r_keep_gaps = keep, r_chunk_start_time = t0,
                             r_chunk_end_time = ce, r_cur_time = cur, r_tasks = df1, r_trims = []\<rparr>"
  have run': "(if cur > ce
               then (let time_diff = cur - ce
                     in if time_diff \<le> 0.6
                        then (case trim_overflow chunk time_diff ce df1 of
                                Inl e \<Rightarrow> Inl e
                              | Inr (tasks_df2, trims) \<Rightarrow>
                                  Inr (res\<lparr>r_tasks := tasks_df2, r_trims := trims\<rparr>))
                        else Inr res)
               else Inr res) = Inr r"
    using run unfolding render_chunk_def Let_def ch [symmetric] res_def ce_def
    by (simp add: pc ps pe rr)
  have idxs: "\<forall>i \<in> set [0..<length chunk].
                i < length chunk \<and> chunk_start_index + i < length tasks_df
                \<and> chunk ! i = tasks_df ! (chunk_start_index + i)"
    using nth rng n by (auto simp: n_def)
  note rs = render_rows_spec [OF d idxs refl rr]
  note rf = render_rows_frame [OF d idxs refl rr]
  have lastidx: "last [0..<length chunk] = n - 1"
    using npos by (simp add: n_def)
  have nonem: "[0..<length chunk] \<noteq> []"
    using npos by (simp add: n_def)
  have u1: "map unsub df1 = map unsub tasks_df"
    using rf by simp
  have out1: "df1 ! j = tasks_df ! j" if "j < chunk_start_index \<or> index < j" for j
  proof -
    have "j \<notin> (\<lambda>i. chunk_start_index + i) ` set [0..<length chunk]"
      using that n by (auto simp: n_def [symmetric])
    with rf show ?thesis
      by blast
  qed
  have lst1: "\<exists>ts. new_sub_times (df1 ! index) = Some ts
               \<and> last ts = (cur - clip_ad_dur (last (lines (last chunk))), cur)"
    if "lines (last chunk) \<noteq> []"
  proof -
    have "lines (chunk ! last [0..<length chunk]) \<noteq> []"
      using that unfolding lastidx lastc .
    with rf nonem have "\<exists>ts. new_sub_times (df1 ! (chunk_start_index + last [0..<length chunk])) = Some ts
               \<and> last ts = (cur - clip_ad_dur (last (lines (chunk ! last [0..<length chunk]))), cur)"
      by blast
    then show ?thesis
      by (simp only: lastidx lasti lastc)
  qed
  from rs ne lastidx obtain ts where
    ts: "new_sub_times (df1 ! (chunk_start_index + (n - 1))) = Some ts"
    "length ts = length (lines (chunk ! (n - 1)))"
    by auto
  have ts': "new_sub_times (df1 ! index) = Some ts" "length ts = length (lines (last chunk))"
    using ts lasti lastc by simp_all
  have nums: "map number df1 = map number tasks_df"
    using rs by simp
  have l1: "index < length df1"
    using rng nums by (metis length_map)
  have fi: "first_index (number (last chunk)) df1 = Some index"
    using first_index_numbers [OF nums] first_index_distinct [OF d rng(2)] lastr
    by simp
  show ?thesis
  proof (cases "cur > ce \<and> cur - ce \<le> 0.6")
    case True
    with run' obtain df2 trims where
      tr: "trim_overflow chunk (cur - ce) ce df1 = Inr (df2, trims)"
      and r: "r = res\<lparr>r_tasks := df2, r_trims := trims\<rparr>"
      by (auto simp: Let_def split: sum.splits)
    note tf = trim_overflow_frame [OF fi l1 ts'(1) tr]
    have f: "r_speed_factor r = sp" "r_keep_gaps r = keep" "r_chunk_start_time r = t0"
      "r_chunk_end_time r = ce" "r_cur_time r = cur" "r_tasks r = df2" "r_trims r = trims"
      by (simp_all add: r res_def)
    have a: "map unsub df2 = map unsub tasks_df"
      using tf u1 by simp
    have b: "df2 ! j = tasks_df ! j" if "j < chunk_start_index \<or> index < j" for j
    proof -
      from that rng have "j \<noteq> index"
        by auto
      with tf have "df2 ! j = df1 ! j"
        by blast
      with out1 [OF that] show ?thesis
        by simp
    qed
    have c: "\<forall>t \<in> set trims. fst t = number (tasks_df ! index)"
      using tf lastr by simp
    from tf obtain ts2 where
      ts2: "new_sub_times (df2 ! index) = Some ts2" "last ts2 = (fst (last ts), ce)"
      by blast
    from trim_overflow_spec [OF fi l1 ts'(1) ts'(2) tr] ts2(1) have l2: "length ts2 = length ts"
      by auto
    have e: "last ts2 = (cur - clip_ad_dur (last (lines (last chunk))), ce)"
      if "lines (last chunk) \<noteq> []"
    proof -
      from lst1 [OF that] ts'(1) have "last ts = (cur - clip_ad_dur (last (lines (last chunk))), cur)"
        by auto
      then have "fst (last ts) = cur - clip_ad_dur (last (lines (last chunk)))"
        by simp
      with ts2(2) show ?thesis
        by simp
    qed
    have g: "\<exists>ts. new_sub_times (df2 ! index) = Some ts
              \<and> length ts = length (lines (last chunk))
              \<and> (lines (last chunk) \<noteq> [] \<longrightarrow>
                   last ts = (cur - clip_ad_dur (last (lines (last chunk))), ce))"
      using ts2(1) l2 ts'(2) e by (intro exI [of _ ts2]) simp
    show ?thesis
      unfolding f using a b c g True by auto
  next
    case False
    with run' have r: "r = res"
      by (auto simp: Let_def split: if_splits)
    have f: "r_speed_factor r = sp" "r_keep_gaps r = keep" "r_chunk_start_time r = t0"
      "r_chunk_end_time r = ce" "r_cur_time r = cur" "r_tasks r = df1" "r_trims r = []"
      by (simp_all add: r res_def)
    have e: "last ts = (cur - clip_ad_dur (last (lines (last chunk))), cur)"
      if "lines (last chunk) \<noteq> []"
      using lst1 [OF that] ts'(1) by auto
    have g: "\<exists>ts. new_sub_times (df1 ! index) = Some ts
              \<and> length ts = length (lines (last chunk))
              \<and> (lines (last chunk) \<noteq> [] \<longrightarrow>
                   last ts = (cur - clip_ad_dur (last (lines (last chunk))), cur))"
      using ts' e by (intro exI [of _ ts]) simp
    show ?thesis
      unfolding f using u1 out1 g False by auto
  qed
qed


lemma map_unsub_distinct:
  assumes "map unsub a = map unsub b" "distinct (map number b)"
  shows "distinct (map number a)"
  using map_unsub_numbers [OF assms(1)] assms(2) by simp

lemma map_unsub_length:
  assumes "map unsub a = map unsub b"
  shows "length a = length b"
  using assms by (metis length_map)

lemma map_unsub_cut_off:
  assumes "map unsub a = map unsub b" "i < length b"
  shows "cut_off (a ! i) = cut_off (b ! i)"
  using unsub_eq(7) [OF map_unsub_nth [OF assms(1)]] assms(2) map_unsub_length [OF assms(1)]
  by simp

lemma distinct_numbers_neq:
  assumes "distinct (map number T)" "i < length T" "j < length T" "i \<noteq> j"
  shows "number (T ! i) \<noteq> number (T ! j)"
  using assms by (simp add: distinct_conv_nth)

text \<open>
  The loop of \<open>merge_chunks\<close>: a chunk is rendered when the loop reaches its marked last
  row, from the row after the previous mark, and the chunks rendered afterwards change
  neither its rows nor its cuts.
\<close>

lemma merge_chunks_loop_step:
  assumes "k < n"
  shows "merge_chunks_loop a m [k..<n] cs T tr =
     (if cut_off (T ! k) = 1
      then (case render_chunk a m T cs k of
              Inl e \<Rightarrow> Inl e
            | Inr r \<Rightarrow> merge_chunks_loop a m [Suc k..<n] (k + 1) (r_tasks r) (tr @ r_trims r))
      else merge_chunks_loop a m [Suc k..<n] cs T tr)"
  using assms by (simp add: upt_conv_Cons)

lemma merge_chunks_loop_after:
  assumes d: "distinct (map number T)" and n: "length T = n"
      and run: "merge_chunks_loop a m [k..<n] cs T tr = Inr (df, trims)"
      and b: "e < cs" "cs \<le> k"
      and x: "x = number (T ! e)"
  shows "df ! e = T ! e
       \<and> filter (\<lambda>t. fst t = x) trims = filter (\<lambda>t. fst t = x) tr"
  using d n run b x
proof (induction "n - k" arbitrary: k cs T tr)
  case 0
  then have "[k..<n] = []"
    by simp
  with "0.prems"(3) show ?case
    by simp
next
  case (Suc v)
  from Suc.hyps(2) have kn: "k < n"
    by simp
  have v: "v = n - Suc k"
    using Suc.hyps(2) by simp
  note st = merge_chunks_loop_step [OF kn, of a m cs T tr]
  show ?case
  proof (cases "cut_off (T ! k) = 1")
    case True
    with st Suc.prems(3) obtain r where
      rc: "render_chunk a m T cs k = Inr r"
      and rec: "merge_chunks_loop a m [Suc k..<n] (k + 1) (r_tasks r) (tr @ r_trims r) = Inr (df, trims)"
      by (auto split: sum.splits)
    have kl: "k < length T"
      using kn Suc.prems(2) by simp
    note fr = render_chunk_frame [OF Suc.prems(1) Suc.prems(5) kl refl rc]
    have u: "map unsub (r_tasks r) = map unsub T"
      using fr by simp
    have d': "distinct (map number (r_tasks r))"
      using map_unsub_distinct [OF u Suc.prems(1)] .
    have n': "length (r_tasks r) = n"
      using map_unsub_length [OF u] Suc.prems(2) by simp
    have same: "r_tasks r ! e = T ! e"
      using fr Suc.prems(4) by blast
    have x': "x = number (r_tasks r ! e)"
      using Suc.prems(6) same by simp
    have b': "e < k + 1" "k + 1 \<le> Suc k"
      using Suc.prems(4,5) by simp_all
    note ih = Suc.hyps(1) [OF v d' n' rec b' x']
    have ek: "e < length T" "e \<noteq> k"
      using Suc.prems(4,5) kl by simp_all
    have "number (T ! k) \<noteq> x"
      using distinct_numbers_neq [OF Suc.prems(1) kl ek(1)] ek(2) Suc.prems(6) by auto
    then have "filter (\<lambda>t. fst t = x) (r_trims r) = []"
      using fr by (auto simp: filter_empty_conv)
    with ih same show ?thesis
      by simp
  next
    case False
    with st Suc.prems(3) have
      rec: "merge_chunks_loop a m [Suc k..<n] cs T tr = Inr (df, trims)"
      by simp
    have b': "e < cs" "cs \<le> Suc k"
      using Suc.prems(4,5) by simp_all
    from Suc.hyps(1) [OF v Suc.prems(1) Suc.prems(2) rec b' Suc.prems(6)] show ?thesis .
  qed
qed


lemma merge_chunks_loop_chunk:
  assumes d: "distinct (map number T)" and n: "length T = n"
      and run: "merge_chunks_loop a m [k..<n] cs T tr = Inr (df, trims)"
      and k: "cs \<le> k" "k \<le> e" "e < n"
      and mk: "cut_off (T ! e) = 1"
      and s: "s \<le> e" "\<forall>i. s \<le> i \<and> i < e \<longrightarrow> cut_off (T ! i) \<noteq> 1"
      and A: "s = cs \<or> (k < s \<and> cut_off (T ! (s - 1)) = 1)"
      and x: "x = number (T ! e)"
      and tr: "\<forall>t \<in> set tr. fst t \<noteq> x"
  shows "\<exists>T1 r. map unsub T1 = map unsub T
           \<and> render_chunk a m T1 s e = Inr r
           \<and> df ! e = r_tasks r ! e
           \<and> filter (\<lambda>t. fst t = x) trims = r_trims r"
  using d n run k mk s A x tr
proof (induction "n - k" arbitrary: k cs T tr)
  case 0
  then show ?case
    by simp
next
  case (Suc v)
  note d = Suc.prems(1) and n = Suc.prems(2) and run = Suc.prems(3)
    and k = Suc.prems(4,5,6) and mk = Suc.prems(7) and s = Suc.prems(8,9)
    and A = Suc.prems(10) and x = Suc.prems(11) and tr = Suc.prems(12)
  from Suc.hyps(2) have kn: "k < n"
    by simp
  have v: "v = n - Suc k"
    using Suc.hyps(2) by simp
  have kl: "k < length T" and el: "e < length T"
    using kn k(3) n by simp_all
  note st = merge_chunks_loop_step [OF kn, of a m cs T tr]
  show ?case
  proof (cases "cut_off (T ! k) = 1")
    case True
    with st run obtain r where
      rc: "render_chunk a m T cs k = Inr r"
      and rec: "merge_chunks_loop a m [Suc k..<n] (k + 1) (r_tasks r) (tr @ r_trims r) = Inr (df, trims)"
      by (auto split: sum.splits)
    note fr = render_chunk_frame [OF d k(1) kl refl rc]
    have u: "map unsub (r_tasks r) = map unsub T"
      using fr by simp
    have d': "distinct (map number (r_tasks r))"
      using map_unsub_distinct [OF u d] .
    have n': "length (r_tasks r) = n"
      using map_unsub_length [OF u] n by simp
    have nums: "\<forall>t \<in> set (r_trims r). fst t = number (T ! k)"
      using fr by simp
    show ?thesis
    proof (cases "e = k")
      case True
      have sc: "s = cs"
        using A s(1) True by auto
      have x': "x = number (r_tasks r ! e)"
        using x unsub_eq(1) [OF map_unsub_nth [OF u]] el n n' by simp
      have b': "e < k + 1" "k + 1 \<le> Suc k"
        using True by simp_all
      note af = merge_chunks_loop_after [OF d' n' rec b' x']
      have "filter (\<lambda>t. fst t = x) (r_trims r) = r_trims r"
        using nums x True by (auto simp: filter_id_conv)
      moreover have "filter (\<lambda>t. fst t = x) tr = []"
        using tr by (auto simp: filter_empty_conv)
      ultimately have "filter (\<lambda>t. fst t = x) trims = r_trims r"
        using af by simp
      moreover have "render_chunk a m T s e = Inr r"
        using rc sc True by simp
      moreover have "df ! e = r_tasks r ! e"
        using af by simp
      ultimately show ?thesis
        by blast
    next
      case False
      with k(2) have ke: "Suc k \<le> e" "k < e"
        by simp_all
      have co: "cut_off (r_tasks r ! i) = cut_off (T ! i)" if "i < n" for i
        using map_unsub_cut_off [OF u] that n by simp
      have mk': "cut_off (r_tasks r ! e) = 1"
        using co [OF k(3)] mk by simp
      have s2': "\<forall>i. s \<le> i \<and> i < e \<longrightarrow> cut_off (r_tasks r ! i) \<noteq> 1"
        using s(2) co k(3) by auto
      have ns: "s \<noteq> cs"
      proof
        assume "s = cs"
        with k(1) ke(2) True s(2) show False
          by auto
      qed
      with A have ks: "k < s" "cut_off (T ! (s - 1)) = 1"
        by simp_all
      have "s - 1 < n"
        using s(1) k(3) by simp
      then have "cut_off (r_tasks r ! (s - 1)) = 1"
        using co ks(2) by simp
      with ks(1) have A': "s = k + 1 \<or> (Suc k < s \<and> cut_off (r_tasks r ! (s - 1)) = 1)"
        by auto
      have x': "x = number (r_tasks r ! e)"
        using x unsub_eq(1) [OF map_unsub_nth [OF u]] el n n' by simp
      have "number (T ! k) \<noteq> x"
        using distinct_numbers_neq [OF d kl el] ke(2) x by auto
      with nums tr have tr': "\<forall>t \<in> set (tr @ r_trims r). fst t \<noteq> x"
        by auto
      from Suc.hyps(1) [OF v d' n' rec _ ke(1) k(3) mk' s(1) s2' A' x' tr']
      obtain T1 r1 where
        "map unsub T1 = map unsub (r_tasks r)" "render_chunk a m T1 s e = Inr r1"
        "df ! e = r_tasks r1 ! e" "filter (\<lambda>t. fst t = x) trims = r_trims r1"
        by auto
      with u show ?thesis
        by auto
    qed
  next
    case False
    with st run have
      rec: "merge_chunks_loop a m [Suc k..<n] cs T tr = Inr (df, trims)"
      by simp
    from False mk have "e \<noteq> k"
      by auto
    with k(2) have ke: "Suc k \<le> e"
      by simp
    have A': "s = cs \<or> (Suc k < s \<and> cut_off (T ! (s - 1)) = 1)"
    proof (cases "s = cs")
      case True
      then show ?thesis by simp
    next
      case ns: False
      with A have ks: "k < s" "cut_off (T ! (s - 1)) = 1"
        by simp_all
      have "s \<noteq> Suc k"
        using ks(2) False by auto
      with ks show ?thesis
        by auto
    qed
    have c': "cs \<le> Suc k"
      using k(1) by simp
    from Suc.hyps(1) [OF v d n rec c' ke k(3) mk s(1) s(2) A' x tr] show ?thesis .
  qed
qed


lemma unsub_idem:
  "map unsub (map unsub T) = map unsub T"
  by (simp add: unsub_def)

lemma merge_chunks_unsub:
  "merge_chunks a m T = merge_chunks_loop a m [0..<length T] 0 (map unsub T) []"
proof -
  have "unsub = (\<lambda>r. r\<lparr>new_sub_times := None\<rparr>)"
    by (rule ext) (simp add: unsub_def)
  then show ?thesis
    by (simp add: merge_chunks_def Let_def)
qed

text \<open>
  What \<open>merge_chunks\<close> returns for each chunk. Let the numbers of the table be distinct,
  let \<open>merge_chunks\<close> return, and let the rows \<open>s .. e\<close> be a chunk: row \<open>e\<close> is
  marked, no row from \<open>s\<close> up to it is, and \<open>s\<close> is the first row or follows a marked
  row. Then the solver, called on the chunk, and both time strings succeed, and with
  \<open>cur\<close> the chunk's start plus the sum of the measured lengths of the chunk's adjusted
  clips plus, when gaps are kept, every internal gap divided by the speed factor: the last
  line of the chunk has one recorded pair per clip and the last pair starts at \<open>cur\<close> less
  the length of the last clip. If \<open>cur\<close> exceeds the nominal end (the last line's end
  time plus its tolerance) by at most 0.6 seconds, the last pair ends at the nominal end
  and the one cut recorded for the line is \<open>audio[:int(len_ms - 1000 * excess)]\<close> on its
  last file, which takes off the excess rounded up to a whole millisecond when the clip is
  at least as long as the excess. In every other case no cut is recorded for the line and
  the last pair ends at \<open>cur\<close>.
\<close>

theorem merge_chunks_span:
  assumes d: "distinct (map number tasks_df)"
      and run: "merge_chunks accept min_speed tasks_df = Inr (df, trims)"
      and e: "e < length tasks_df" "cut_off (tasks_df ! e) = 1"
      and s: "s \<le> e" "s = 0 \<or> cut_off (tasks_df ! (s - 1)) = 1"
             "\<forall>i. s \<le> i \<and> i < e \<longrightarrow> cut_off (tasks_df ! i) \<noteq> 1"
      and ch: "chunk = take (e + 1 - s) (drop s tasks_df)"
  shows "\<exists>sp keep t0 te cur ts.
           process_chunk chunk accept min_speed = Inr (sp, keep)
         \<and> parse_df_srt_time (start_time_str (chunk ! 0)) = Inr t0
         \<and> parse_df_srt_time (end_time_str (last chunk)) = Inr te
         \<and> cur - t0 = sum_list (map (\<lambda>row. sum_list (map clip_ad_dur (lines row))) chunk)
                        + (if keep then sum_list (map (\<lambda>row. gap row / sp) (butlast chunk)) else 0)
         \<and> new_sub_times (df ! e) = Some ts
         \<and> length ts = length (lines (last chunk))
         \<and> (lines (last chunk) \<noteq> [] \<longrightarrow>
              fst (last ts) = cur - clip_ad_dur (last (lines (last chunk))))
         \<and> (te + tolerance (last chunk) < cur \<and> cur - (te + tolerance (last chunk)) \<le> 0.6 \<longrightarrow>
              lines (last chunk) \<noteq> []
              \<and> snd (last ts) = te + tolerance (last chunk)
              \<and> filter (\<lambda>t. fst t = number (last chunk)) trims
                  = [(number (last chunk), int (length (lines (last chunk))) - 1,
                      py_int (real_of_int (clip_len_ms (last (lines (last chunk))))
                              - (cur - (te + tolerance (last chunk))) * 1000))]
              \<and> ((cur - (te + tolerance (last chunk))) * 1000
                     \<le> real_of_int (clip_len_ms (last (lines (last chunk)))) \<longrightarrow>
                   (cur - (te + tolerance (last chunk))) * 1000
                     \<le> real_of_int (clip_len_ms (last (lines (last chunk)))
                          - py_int (real_of_int (clip_len_ms (last (lines (last chunk))))
                              - (cur - (te + tolerance (last chunk))) * 1000))
                   \<and> real_of_int (clip_len_ms (last (lines (last chunk)))
                          - py_int (real_of_int (clip_len_ms (last (lines (last chunk))))
                              - (cur - (te + tolerance (last chunk))) * 1000))
                     < (cur - (te + tolerance (last chunk))) * 1000 + 1))
         \<and> (\<not> (te + tolerance (last chunk) < cur \<and> cur - (te + tolerance (last chunk)) \<le> 0.6) \<longrightarrow>
              filter (\<lambda>t. fst t = number (last chunk)) trims = []
              \<and> (lines (last chunk) \<noteq> [] \<longrightarrow> snd (last ts) = cur))"
proof -
  define df0 where "df0 = map unsub tasks_df"
  have u0: "map unsub df0 = map unsub tasks_df"
    unfolding df0_def by (rule unsub_idem)
  have n0: "length df0 = length tasks_df"
    by (simp add: df0_def)
  have d0: "distinct (map number df0)"
    using map_unsub_distinct [OF u0 d] .
  have co: "cut_off (df0 ! i) = cut_off (tasks_df ! i)" if "i < length tasks_df" for i
    using map_unsub_cut_off [OF u0 that] .
  have run0: "merge_chunks_loop accept min_speed [0..<length tasks_df] 0 df0 [] = Inr (df, trims)"
    using run by (simp add: merge_chunks_unsub df0_def)
  have mk0: "cut_off (df0 ! e) = 1"
    using co [OF e(1)] e(2) by simp
  have s0: "\<forall>i. s \<le> i \<and> i < e \<longrightarrow> cut_off (df0 ! i) \<noteq> 1"
    using s(3) co e(1) by auto
  have A0: "s = 0 \<or> (0 < s \<and> cut_off (df0 ! (s - 1)) = 1)"
  proof (cases "s = 0")
    case True
    then show ?thesis by simp
  next
    case False
    then have "s - 1 < length tasks_df"
      using s(1) e(1) by simp
    with co s(2) False show ?thesis
      by auto
  qed
  have x0: "number (tasks_df ! e) = number (df0 ! e)"
    using e(1) by (simp add: df0_def unsub_fields)
  have tr0: "\<forall>t \<in> set []. fst t \<noteq> number (tasks_df ! e)"
    by simp
  from merge_chunks_loop_chunk [OF d0 n0 run0 _ _ e(1) mk0 s(1) s0 A0 x0 tr0]
  obtain T1 r where
    u1': "map unsub T1 = map unsub df0"
    and rc: "render_chunk accept min_speed T1 s e = Inr r"
    and dfe: "df ! e = r_tasks r ! e"
    and tre: "filter (\<lambda>t. fst t = number (tasks_df ! e)) trims = r_trims r"
    by auto
  have u1: "map unsub T1 = map unsub tasks_df"
    using u1' u0 by simp
  have d1: "distinct (map number T1)"
    using map_unsub_distinct [OF u1 d] .
  have e1: "e < length T1"
    using map_unsub_length [OF u1] e(1) by simp
  define c1 where "c1 = take (e + 1 - s) (drop s T1)"
  have uc: "map unsub c1 = map unsub chunk"
    unfolding c1_def ch using u1 by (simp add: take_map [symmetric] drop_map [symmetric])
  have len: "length chunk = e + 1 - s"
    using e(1) s(1) by (simp add: ch)
  have ne: "chunk \<noteq> []"
    using len s(1) by auto
  have ne1: "c1 \<noteq> []"
    using uc ne by auto
  have lastr: "last chunk = tasks_df ! e"
  proof -
    have "last chunk = chunk ! (e - s)"
      using ne len by (simp add: last_conv_nth)
    also have "\<dots> = tasks_df ! e"
      using e(1) s(1) by (simp add: ch)
    finally show ?thesis .
  qed
  note l = unsub_eq [OF map_unsub_last [OF uc ne1]]
  have h: "unsub (c1 ! 0) = unsub (chunk ! 0)"
    using map_unsub_nth [OF uc] ne1 by simp
  note h' = unsub_eq [OF h]
  have pcu: "process_chunk c1 accept min_speed = process_chunk chunk accept min_speed"
    using process_chunk_unsub [OF uc] .
  have sums: "map (\<lambda>row. sum_list (map clip_ad_dur (lines row))) c1
                = map (\<lambda>row. sum_list (map clip_ad_dur (lines row))) chunk"
    using uc by (rule map_unsub_fun) (simp add: unsub_fields)
  have ub: "map unsub (butlast c1) = map unsub (butlast chunk)"
    using uc by (simp add: map_butlast)
  have gaps: "map (\<lambda>row. gap row / q) (butlast c1) = map (\<lambda>row. gap row / q) (butlast chunk)" for q
    using ub by (rule map_unsub_fun) (simp add: unsub_fields)
  note rs = render_chunk_span [OF d1 s(1) e1 c1_def rc]
  note rf = render_chunk_frame [OF d1 s(1) e1 c1_def rc]
  define sp where "sp = r_speed_factor r"
  define keep where "keep = r_keep_gaps r"
  define t0 where "t0 = r_chunk_start_time r"
  define cur where "cur = r_cur_time r"
  define ce where "ce = r_chunk_end_time r"
  from rs obtain te where
    pe1: "parse_df_srt_time (end_time_str (last c1)) = Inr te"
    and ce1: "ce = te + tolerance (last c1)"
    unfolding ce_def by blast
  have pc: "process_chunk chunk accept min_speed = Inr (sp, keep)"
    using rs pcu by (simp add: sp_def keep_def)
  have ps: "parse_df_srt_time (start_time_str (chunk ! 0)) = Inr t0"
    using rs h'(2) by (simp add: t0_def)
  have pe: "parse_df_srt_time (end_time_str (last chunk)) = Inr te"
    using pe1 l(3) by simp
  have ce': "ce = te + tolerance (last chunk)"
    using ce1 l(5) by simp
  have span: "cur - t0 = sum_list (map (\<lambda>row. sum_list (map clip_ad_dur (lines row))) chunk)
                + (if keep then sum_list (map (\<lambda>row. gap row / sp) (butlast chunk)) else 0)"
  proof -
    have "cur - t0 = sum_list (map (\<lambda>row. sum_list (map clip_ad_dur (lines row))) c1)
                + (if keep then sum_list (map (\<lambda>row. gap row / sp) (butlast c1)) else 0)"
      using rs by (simp add: cur_def t0_def keep_def sp_def)
    then show ?thesis
      by (simp only: sums gaps)
  qed
  have xn: "number (last chunk) = number (tasks_df ! e)"
    using lastr by simp
  have tre': "filter (\<lambda>t. fst t = number (last chunk)) trims = r_trims r"
    using tre xn by simp
  from rf obtain ts where
    ts: "new_sub_times (r_tasks r ! e) = Some ts" "length ts = length (lines (last c1))"
    and tl: "lines (last c1) \<noteq> [] \<longrightarrow>
               last ts = (cur - clip_ad_dur (last (lines (last c1))),
                          if cur > ce \<and> cur - ce \<le> 0.6 then ce else cur)"
    unfolding cur_def ce_def by blast
  have a1: "new_sub_times (df ! e) = Some ts"
    using ts(1) dfe by simp
  have a2: "length ts = length (lines (last chunk))"
    using ts(2) l(8) by simp
  have a3: "lines (last chunk) \<noteq> [] \<longrightarrow>
              fst (last ts) = cur - clip_ad_dur (last (lines (last chunk)))"
    using tl l(8) by simp
  show ?thesis
  proof (cases "ce < cur \<and> cur - ce \<le> 0.6")
    case True
    with rs have ov: "lines (last c1) \<noteq> []"
      "r_trims r = [(number (last c1), int (length (lines (last c1))) - 1,
                    py_int (real_of_int (clip_len_ms (last (lines (last c1)))) - (cur - ce) * 1000))]"
      unfolding cur_def ce_def by blast+
    have sl: "snd (last ts) = ce"
      using tl ov(1) True by simp
    have tm: "(cur - ce) * 1000 \<le> real_of_int (clip_len_ms (last (lines (last chunk)))) \<longrightarrow>
                 (cur - ce) * 1000
                   \<le> real_of_int (clip_len_ms (last (lines (last chunk)))
                        - py_int (real_of_int (clip_len_ms (last (lines (last chunk)))) - (cur - ce) * 1000))
                 \<and> real_of_int (clip_len_ms (last (lines (last chunk)))
                        - py_int (real_of_int (clip_len_ms (last (lines (last chunk)))) - (cur - ce) * 1000))
                   < (cur - ce) * 1000 + 1"
      using py_int_trim [of "(cur - ce) * 1000" "clip_len_ms (last (lines (last chunk)))"]
      by simp
    have a4: "lines (last chunk) \<noteq> []"
      using ov(1) l(8) by simp
    have a5: "filter (\<lambda>t. fst t = number (last chunk)) trims
                = [(number (last chunk), int (length (lines (last chunk))) - 1,
                    py_int (real_of_int (clip_len_ms (last (lines (last chunk)))) - (cur - ce) * 1000))]"
      using tre' ov(2) l(1) l(8) by simp
    show ?thesis
      using pc ps pe span a1 a2 a3 a4 a5 sl tm True unfolding ce'
      by (intro exI [of _ sp] exI [of _ keep] exI [of _ t0] exI [of _ te] exI [of _ cur] exI [of _ ts]) simp
  next
    case False
    with rf have nt: "r_trims r = []"
      unfolding cur_def ce_def by blast
    have a4: "lines (last chunk) \<noteq> [] \<longrightarrow> snd (last ts) = cur"
      using tl l(8) False by auto
    have a5: "filter (\<lambda>t. fst t = number (last chunk)) trims = []"
      using tre' nt by simp
    show ?thesis
      using pc ps pe span a1 a2 a3 a4 a5 False unfolding ce'
      by (intro exI [of _ sp] exI [of _ keep] exI [of _ t0] exI [of _ te] exI [of _ cur] exI [of _ ts]) simp
  qed
qed

text \<open>
  On \<open>example_tasks\<close> the chunk of both lines overflows by 0.09 s: the file of line 2 is
  cut from 5250 to 5160 ms and its pair ends at the nominal end 10.2.
\<close>

theorem merge_chunks_span_examples:
  "(case merge_chunks 1.2 1 example_tasks of Inl _ \<Rightarrow> False
    | Inr (df, trims) \<Rightarrow>
        filter (\<lambda>t. fst t = 2) trims = [(2, 0, 5160)]
        \<and> map_option last (new_sub_times (df ! 1)) = Some (5.04, 10.2))"
proof -
  have "(case merge_chunks 1.2 1 example_tasks of Inl _ \<Rightarrow> False | Inr _ \<Rightarrow> True)"
    by code_simp
  then obtain df trims where run: "merge_chunks 1.2 1 example_tasks = Inr (df, trims)"
    by (cases "merge_chunks 1.2 1 example_tasks") auto
  define chunk where "chunk = take (1 + 1 - 0) (drop 0 example_tasks)"
  have c: "chunk = example_tasks"
    by (simp add: chunk_def example_tasks_def)
  have d: "distinct (map number example_tasks)"
    by (simp add: example_tasks_def example_row_def)
  have e: "1 < length example_tasks" "cut_off (example_tasks ! 1) = 1"
    by (simp_all add: example_tasks_def example_row_def)
  have s: "(0::nat) \<le> 1" "(0::nat) = 0 \<or> cut_off (example_tasks ! (0 - 1)) = 1"
    "\<forall>i. 0 \<le> i \<and> i < 1 \<longrightarrow> cut_off (example_tasks ! i) \<noteq> 1"
    by (simp_all add: example_tasks_def example_row_def)
  have pc: "process_chunk chunk 1.2 1 = Inr (1.212, False)"
    unfolding c by code_simp
  have ps: "parse_df_srt_time (start_time_str (chunk ! 0)) = Inr 0"
    unfolding c by code_simp
  have pe: "parse_df_srt_time (end_time_str (last chunk)) = Inr 10"
    unfolding c by code_simp
  have v: "sum_list (map (\<lambda>row. sum_list (map clip_ad_dur (lines row))) chunk) = 10.29"
    "tolerance (last chunk) = 0.2" "number (last chunk) = 2"
    "lines (last chunk) = [example_clip 6.24 5.25]"
    unfolding c by (simp_all add: example_tasks_def example_row_def example_clip_def)
  have cl: "clip_ad_dur (example_clip 6.24 5.25) = 5.25" "clip_len_ms (example_clip 6.24 5.25) = 5250"
    by (simp_all add: example_clip_def)
  from merge_chunks_span [OF d run e s chunk_def]
  obtain sp keep t0 te cur ts where
    r: "process_chunk chunk 1.2 1 = Inr (sp, keep)"
       "parse_df_srt_time (start_time_str (chunk ! 0)) = Inr t0"
       "parse_df_srt_time (end_time_str (last chunk)) = Inr te"
       "cur - t0 = sum_list (map (\<lambda>row. sum_list (map clip_ad_dur (lines row))) chunk)
                        + (if keep then sum_list (map (\<lambda>row. gap row / sp) (butlast chunk)) else 0)"
       "new_sub_times (df ! 1) = Some ts"
       "lines (last chunk) \<noteq> [] \<longrightarrow>
              fst (last ts) = cur - clip_ad_dur (last (lines (last chunk)))"
    and ov: "te + tolerance (last chunk) < cur \<and> cur - (te + tolerance (last chunk)) \<le> 0.6 \<longrightarrow>
              snd (last ts) = te + tolerance (last chunk)
              \<and> filter (\<lambda>t. fst t = number (last chunk)) trims
                  = [(number (last chunk), int (length (lines (last chunk))) - 1,
                      py_int (real_of_int (clip_len_ms (last (lines (last chunk))))
                              - (cur - (te + tolerance (last chunk))) * 1000))]"
    by blast
  have k: "sp = 1.212" "\<not> keep" "t0 = 0" "te = 10"
    using r(1,2,3) pc ps pe by simp_all
  have cur: "cur = 10.29"
    using r(4) k v(1) by simp
  have ll: "last (lines (last chunk)) = example_clip 6.24 5.25" "lines (last chunk) \<noteq> []"
    by (simp_all add: v(4))
  have "fst (last ts) = cur - clip_ad_dur (last (lines (last chunk)))"
    using r(6) ll(2) by blast
  then have f: "fst (last ts) = 5.04"
    unfolding ll(1) cl cur by simp
  have o: "te + tolerance (last chunk) < cur \<and> cur - (te + tolerance (last chunk)) \<le> 0.6"
    by (simp add: k cur v(2))
  have sn: "snd (last ts) = 10.2"
    using ov o k v(2) by simp
  have lm: "real_of_int (clip_len_ms (last (lines (last chunk))))
              - (cur - (te + tolerance (last chunk))) * 1000 = 5160"
    unfolding ll(1) cl v(2) k cur by simp
  have p5: "py_int 5160 = 5160"
    by (simp add: py_int_def)
  from ov o have "filter (\<lambda>t. fst t = number (last chunk)) trims
                  = [(number (last chunk), int (length (lines (last chunk))) - 1,
                      py_int (real_of_int (clip_len_ms (last (lines (last chunk))))
                              - (cur - (te + tolerance (last chunk))) * 1000))]"
    by blast
  then have tr: "filter (\<lambda>t. fst t = 2) trims = [(2, 0, 5160)]"
    unfolding lm p5 by (simp add: v)
  have "last ts = (5.04, 10.2)"
    using f sn by (simp add: prod_eq_iff)
  with tr r(5) show ?thesis
    unfolding run by simp
qed

text \<open>
  C2. The step that corrects an overflow of at most 0.6 seconds does not ask whether the
  final clip is as long as the excess. On \<open>example_short\<close> the chunk is rendered at the
  factor 1.191 with gaps kept, the cursor ends at 40.685 and the nominal end is 40.5: the
  excess of 185 ms is to come off a final clip of 85 ms. \<open>merge_chunks\<close> slices the file
  with \<open>audio[:-100]\<close> and records for the clip the pair (40.6, 40.5), which ends before
  it starts: the final clip is not trimmed by the excess.
\<close>

theorem merge_chunks_short_clip:
  "process_chunk example_short 1.2 1 = Inr (1.191, True)
   \<and> (case render_chunk 1.2 1 example_short 0 0 of Inl _ \<Rightarrow> False
      | Inr r \<Rightarrow> r_cur_time r = 40.685 \<and> r_chunk_end_time r = 40.5)
   \<and> map clip_len_ms (lines (last example_short)) = [40600, 85]
   \<and> (case merge_chunks 1.2 1 example_short of Inl _ \<Rightarrow> False
      | Inr (df, trims) \<Rightarrow> trims = [(1, 1, -100)]
          \<and> map new_sub_times df = [Some [(0, 40.6), (40.6, 40.5)]])"
  by code_simp

end
